theory Spec2Isabelle
  imports Main "HOL-Library.Char_ord" "HOL-Library.List_Lexorder"
begin

section \<open>The bank account of \<open>unit_6/individual_coding.py\<close>\<close>

text \<open>
  The module defines one exception class of its own, \<open>InsufficientFundsError\<close>, and raises
  Python's built-in \<open>ValueError\<close> for every rejected argument. An exception is a value
  here: its class with the message it was raised with.
\<close>

datatype error = ValueError string | InsufficientFundsError string

text \<open>
  A \<open>BankAccount\<close> object has the private fields \<open>__account_number\<close> and
  \<open>__balance_cents\<close> (a Python \<open>int\<close>, unbounded) and a reentrant lock. Objects live in
  a heap and are referred to by their address, so that \<open>other is self\<close> is equality of
  addresses and two different objects may carry the same account number. The lock of the
  object at address \<open>a\<close> is kept in a table of its own (see the section on threads); a
  method that runs alone finds the lock free, takes it and gives it back.
\<close>

record BankAccount =
  account_number :: string
  balance_cents :: int

type_synonym heap = "BankAccount list"

subsection \<open>Construction\<close>

text \<open>
  \<open>str.strip()\<close> removes leading and trailing whitespace. For the code points a
  \<open>char\<close> can hold (0 to 255) Python's \<open>str.isspace\<close> is true of exactly the ones below.
\<close>

definition isspace :: "char \<Rightarrow> bool" where
  "isspace c \<longleftrightarrow> of_char c \<in> {9, 10, 11, 12, 13, 28, 29, 30, 31, 32, 133, 160 :: nat}"

definition strip :: "string \<Rightarrow> string" where
  "strip s = rev (dropWhile isspace (rev (dropWhile isspace s)))"

definition BankAccount_init :: "string \<Rightarrow> int \<Rightarrow> error + BankAccount" where
  "BankAccount_init acc_number initial_balance_cents =
     (if acc_number = [] \<or> strip acc_number = [] then
        Inl (ValueError ''Account number must not be empty.'')
      else if initial_balance_cents < 0 then
        Inl (ValueError ''Initial balance cannot be negative.'')
      else Inr \<lparr>account_number = acc_number, balance_cents = initial_balance_cents\<rparr>)"

text \<open>An object that the constructor can have returned.\<close>

definition constructed :: "BankAccount \<Rightarrow> bool" where
  "constructed a \<longleftrightarrow> BankAccount_init (account_number a) (balance_cents a) = Inr a"

subsection \<open>Methods, run by one thread\<close>

text \<open>
  A method takes the heap and returns what the call did (an exception or \<open>None\<close>)
  together with the heap it leaves.
\<close>

definition get_balance :: "heap \<Rightarrow> nat \<Rightarrow> int" where
  "get_balance h self = balance_cents (h ! self)"

definition deposit_unlocked :: "heap \<Rightarrow> nat \<Rightarrow> int \<Rightarrow> heap" where
  "deposit_unlocked h self amount_cents =
     h[self := (h ! self)\<lparr>balance_cents := balance_cents (h ! self) + amount_cents\<rparr>]"

definition withdraw_unlocked :: "heap \<Rightarrow> nat \<Rightarrow> int \<Rightarrow> heap" where
  "withdraw_unlocked h self amount_cents =
     h[self := (h ! self)\<lparr>balance_cents := balance_cents (h ! self) - amount_cents\<rparr>]"

definition deposit :: "heap \<Rightarrow> nat \<Rightarrow> int \<Rightarrow> (error + unit) \<times> heap" where
  "deposit h self amount_cents =
     (if amount_cents \<le> 0 then (Inl (ValueError ''Deposit amount must be positive.''), h)
      else (Inr (), deposit_unlocked h self amount_cents))"

definition withdraw :: "heap \<Rightarrow> nat \<Rightarrow> int \<Rightarrow> (error + unit) \<times> heap" where
  "withdraw h self amount_cents =
     (if amount_cents \<le> 0 then (Inl (ValueError ''Withdrawal amount must be positive.''), h)
      else if amount_cents > balance_cents (h ! self) then
        (Inl (InsufficientFundsError ''Insufficient funds.''), h)
      else (Inr (), withdraw_unlocked h self amount_cents))"

text \<open>
  \<open>transfer_to\<close>: the target is an optional reference (\<open>None\<close> is Python's \<open>None\<close>).
  The pair \<open>first, second\<close> fixes the order in which the two locks are taken.
\<close>

definition lock_order :: "heap \<Rightarrow> nat \<Rightarrow> nat \<Rightarrow> nat \<times> nat" where
  "lock_order h self other =
     (if account_number (h ! self) < account_number (h ! other) then (self, other)
      else (other, self))"

definition transfer_body :: "heap \<Rightarrow> nat \<Rightarrow> nat \<Rightarrow> int \<Rightarrow> (error + unit) \<times> heap" where
  "transfer_body h self other amount_cents =
     (if amount_cents > balance_cents (h ! self) then
        (Inl (InsufficientFundsError ''Insufficient funds for transfer.''), h)
      else (Inr (), deposit_unlocked (withdraw_unlocked h self amount_cents) other amount_cents))"

definition transfer_to :: "heap \<Rightarrow> nat \<Rightarrow> nat option \<Rightarrow> int \<Rightarrow> (error + unit) \<times> heap" where
  "transfer_to h self other amount_cents =
     (case other of
        None \<Rightarrow> (Inl (ValueError ''Target account cannot be None.''), h)
      | Some target \<Rightarrow>
          if target = self then (Inl (ValueError ''Cannot transfer to the same account.''), h)
          else if amount_cents \<le> 0 then
            (Inl (ValueError ''Transfer amount must be positive.''), h)
          else transfer_body h self target amount_cents)"

subsection \<open>Sequences of calls\<close>

text \<open>
  A caller holds references to objects that exist: a call is well formed for a heap of
  \<open>n\<close> objects when every reference in it is below \<open>n\<close>. No method creates or
  removes an object, so the heap keeps its size.
\<close>

datatype call =
    GetBalance nat
  | Deposit nat int
  | Withdraw nat int
  | TransferTo nat "nat option" int

fun call_ok :: "nat \<Rightarrow> call \<Rightarrow> bool" where
  "call_ok n (GetBalance a) = (a < n)"
| "call_ok n (Deposit a x) = (a < n)"
| "call_ok n (Withdraw a x) = (a < n)"
| "call_ok n (TransferTo a None x) = (a < n)"
| "call_ok n (TransferTo a (Some b) x) = (a < n \<and> b < n)"

fun is_transfer :: "call \<Rightarrow> bool" where
  "is_transfer (TransferTo a b x) = True"
| "is_transfer c = False"

text \<open>The outcome of one call, and the heap it leaves; \<open>get_balance\<close> only reads.\<close>

fun outcome :: "heap \<Rightarrow> call \<Rightarrow> error + unit" where
  "outcome h (GetBalance a) = Inr ()"
| "outcome h (Deposit a x) = fst (deposit h a x)"
| "outcome h (Withdraw a x) = fst (withdraw h a x)"
| "outcome h (TransferTo a b x) = fst (transfer_to h a b x)"

fun perform :: "heap \<Rightarrow> call \<Rightarrow> heap" where
  "perform h (GetBalance a) = h"
| "perform h (Deposit a x) = snd (deposit h a x)"
| "perform h (Withdraw a x) = snd (withdraw h a x)"
| "perform h (TransferTo a b x) = snd (transfer_to h a b x)"

fun run :: "heap \<Rightarrow> call list \<Rightarrow> heap" where
  "run h [] = h"
| "run h (c # cs) = run (perform h c) cs"

definition total :: "heap \<Rightarrow> int" where
  "total h = sum_list (map balance_cents h)"

text \<open>No account of the heap is overdrawn.\<close>

definition nonneg :: "heap \<Rightarrow> bool" where
  "nonneg h \<longleftrightarrow> (\<forall>a < length h. 0 \<le> balance_cents (h ! a))"

text \<open>
  The amounts of the deposits and of the withdrawals that succeed on the account at
  \<open>self\<close>, when the calls are made one after the other from the heap \<open>h\<close>.
\<close>

fun deposited :: "heap \<Rightarrow> nat \<Rightarrow> call list \<Rightarrow> int" where
  "deposited h self [] = 0"
| "deposited h self (c # cs) =
     (case c of
        Deposit a x \<Rightarrow> (if a = self \<and> outcome h c = Inr () then x else 0)
      | _ \<Rightarrow> 0) + deposited (perform h c) self cs"

fun withdrawn :: "heap \<Rightarrow> nat \<Rightarrow> call list \<Rightarrow> int" where
  "withdrawn h self [] = 0"
| "withdrawn h self (c # cs) =
     (case c of
        Withdraw a x \<Rightarrow> (if a = self \<and> outcome h c = Inr () then x else 0)
      | _ \<Rightarrow> 0) + withdrawn (perform h c) self cs"

fun on_account :: "nat \<Rightarrow> call \<Rightarrow> bool" where
  "on_account self (Deposit a x) = (a = self)"
| "on_account self (Withdraw a x) = (a = self)"
| "on_account self c = False"

section \<open>Threads and locks\<close>

text \<open>
  \<open>threading.RLock\<close>: the thread that owns the lock and how many times it has taken
  it. A thread that finds the lock owned by another thread waits.
\<close>

record RLock =
  rl_owner :: "nat option"
  rl_count :: nat

definition RLock_new :: RLock where
  "RLock_new = \<lparr>rl_owner = None, rl_count = 0\<rparr>"

definition acquirable :: "RLock \<Rightarrow> nat \<Rightarrow> bool" where
  "acquirable l t \<longleftrightarrow> rl_owner l = None \<or> rl_owner l = Some t"

definition acquire :: "RLock \<Rightarrow> nat \<Rightarrow> RLock" where
  "acquire l t = \<lparr>rl_owner = Some t, rl_count = rl_count l + 1\<rparr>"

definition release :: "RLock \<Rightarrow> RLock" where
  "release l = (if rl_count l \<le> 1 then RLock_new else l\<lparr>rl_count := rl_count l - 1\<rparr>)"

text \<open>
  A thread inside \<open>transfer_to\<close> is at one of these points. \<open>first\<close> and \<open>second\<close> are
  computed once, after the checks, and kept as locals.
  \<^item> \<open>Entry\<close>: called, nothing checked yet;
  \<^item> \<open>Acquire1 first second\<close>: about to enter \<open>with first.__lock\<close>;
  \<^item> \<open>Acquire2 first second\<close>: holds \<open>first\<close>, about to enter \<open>with second.__lock\<close>;
  \<^item> \<open>Critical first second\<close>: holds both, about to run the body;
  \<^item> \<open>Exit2 first second r\<close>: the body ended with \<open>r\<close>, leaving the inner \<open>with\<close>;
  \<^item> \<open>Exit1 first r\<close>: leaving the outer \<open>with\<close>;
  \<^item> \<open>Returned r\<close>: the call is over, with \<open>r\<close>.
\<close>

datatype pc =
    Entry
  | Acquire1 nat nat
  | Acquire2 nat nat
  | Critical nat nat
  | Exit2 nat nat "error + unit"
  | Exit1 nat "error + unit"
  | Returned "error + unit"

record thread =
  t_self :: nat
  t_other :: "nat option"
  t_amount :: int
  t_pc :: pc

record sys =
  sys_heap :: heap
  sys_locks :: "RLock list"
  sys_threads :: "thread list"

definition set_pc :: "sys \<Rightarrow> nat \<Rightarrow> pc \<Rightarrow> sys" where
  "set_pc s t p = s\<lparr>sys_threads := (sys_threads s)[t := (sys_threads s ! t)\<lparr>t_pc := p\<rparr>]\<rparr>"

definition set_lock :: "sys \<Rightarrow> nat \<Rightarrow> RLock \<Rightarrow> sys" where
  "set_lock s a l = s\<lparr>sys_locks := (sys_locks s)[a := l]\<rparr>"

text \<open>
  One step of thread \<open>t\<close>; \<open>None\<close> when the thread cannot move: it waits for a lock
  another thread owns, or its call is over.
\<close>

definition step_thread :: "sys \<Rightarrow> nat \<Rightarrow> sys option" where
  "step_thread s t =
     (let th = sys_threads s ! t in
      case t_pc th of
        Entry \<Rightarrow>
          (case t_other th of
             None \<Rightarrow> Some (set_pc s t (Returned (Inl (ValueError ''Target account cannot be None.''))))
           | Some target \<Rightarrow>
               if target = t_self th then
                 Some (set_pc s t (Returned (Inl (ValueError ''Cannot transfer to the same account.''))))
               else if t_amount th \<le> 0 then
                 Some (set_pc s t (Returned (Inl (ValueError ''Transfer amount must be positive.''))))
               else
                 (case lock_order (sys_heap s) (t_self th) target of
                    (first, second) \<Rightarrow> Some (set_pc s t (Acquire1 first second))))
      | Acquire1 first second \<Rightarrow>
          if acquirable (sys_locks s ! first) t then
            Some (set_pc (set_lock s first (acquire (sys_locks s ! first) t)) t
                    (Acquire2 first second))
          else None
      | Acquire2 first second \<Rightarrow>
          if acquirable (sys_locks s ! second) t then
            Some (set_pc (set_lock s second (acquire (sys_locks s ! second) t)) t
                    (Critical first second))
          else None
      | Critical first second \<Rightarrow>
          (case t_other th of
             None \<Rightarrow> None
           | Some target \<Rightarrow>
               (case transfer_body (sys_heap s) (t_self th) target (t_amount th) of
                  (r, h') \<Rightarrow> Some (set_pc (s\<lparr>sys_heap := h'\<rparr>) t (Exit2 first second r))))
      | Exit2 first second r \<Rightarrow>
          Some (set_pc (set_lock s second (release (sys_locks s ! second))) t (Exit1 first r))
      | Exit1 first r \<Rightarrow>
          Some (set_pc (set_lock s first (release (sys_locks s ! first))) t (Returned r))
      | Returned r \<Rightarrow> None)"

text \<open>
  A schedule names the thread that moves at each step. It is executed as long as the
  named thread exists and can move.
\<close>

fun run_schedule :: "sys \<Rightarrow> nat list \<Rightarrow> sys option" where
  "run_schedule s [] = Some s"
| "run_schedule s (t # ts) =
     (if t < length (sys_threads s) then
        (case step_thread s t of None \<Rightarrow> None | Some s' \<Rightarrow> run_schedule s' ts)
      else None)"

text \<open>
  The start: every lock free, one thread for each call \<open>self.transfer_to(other, amount)\<close>,
  none of them started.
\<close>

definition new_thread :: "nat \<times> nat option \<times> int \<Rightarrow> thread" where
  "new_thread c =
     \<lparr>t_self = fst c, t_other = fst (snd c), t_amount = snd (snd c), t_pc = Entry\<rparr>"

definition init_sys :: "heap \<Rightarrow> (nat \<times> nat option \<times> int) list \<Rightarrow> sys" where
  "init_sys h calls =
     \<lparr>sys_heap = h, sys_locks = replicate (length h) RLock_new,
      sys_threads = map new_thread calls\<rparr>"

definition transfer_ok :: "nat \<Rightarrow> nat \<times> nat option \<times> int \<Rightarrow> bool" where
  "transfer_ok n c \<longleftrightarrow> call_ok n (TransferTo (fst c) (fst (snd c)) (snd (snd c)))"

fun is_returned :: "pc \<Rightarrow> bool" where
  "is_returned (Returned r) = True"
| "is_returned p = False"

definition all_returned :: "sys \<Rightarrow> bool" where
  "all_returned s \<longleftrightarrow> list_all (\<lambda>th. is_returned (t_pc th)) (sys_threads s)"

definition can_move :: "sys \<Rightarrow> bool" where
  "can_move s \<longleftrightarrow> list_ex (\<lambda>t. step_thread s t \<noteq> None) [0..<length (sys_threads s)]"

text \<open>The steps a thread at this point has left at most.\<close>

fun steps_left :: "pc \<Rightarrow> nat" where
  "steps_left Entry = 6"
| "steps_left (Acquire1 f sn) = 5"
| "steps_left (Acquire2 f sn) = 4"
| "steps_left (Critical f sn) = 3"
| "steps_left (Exit2 f sn r) = 2"
| "steps_left (Exit1 f r) = 1"
| "steps_left (Returned r) = 0"

definition remaining :: "sys \<Rightarrow> nat" where
  "remaining s = sum_list (map (\<lambda>th. steps_left (t_pc th)) (sys_threads s))"

subsection \<open>What the locks and the threads keep true\<close>

text \<open>
  The locks a thread owns at each point of the call, the lock it is about to ask for,
  and the locals \<open>first, second\<close> where they are set. A thread is inside the call from
  the moment the checks have passed until it returns.
\<close>

fun holds :: "pc \<Rightarrow> nat \<Rightarrow> bool" where
  "holds (Acquire2 f sn) a = (a = f)"
| "holds (Critical f sn) a = (a = f \<or> a = sn)"
| "holds (Exit2 f sn r) a = (a = f \<or> a = sn)"
| "holds (Exit1 f r) a = (a = f)"
| "holds p a = False"

fun wants :: "pc \<Rightarrow> nat option" where
  "wants (Acquire1 f sn) = Some f"
| "wants (Acquire2 f sn) = Some sn"
| "wants p = None"

fun pc_locks :: "pc \<Rightarrow> (nat \<times> nat) option" where
  "pc_locks (Acquire1 f sn) = Some (f, sn)"
| "pc_locks (Acquire2 f sn) = Some (f, sn)"
| "pc_locks (Critical f sn) = Some (f, sn)"
| "pc_locks (Exit2 f sn r) = Some (f, sn)"
| "pc_locks p = None"

fun in_call :: "pc \<Rightarrow> bool" where
  "in_call Entry = False"
| "in_call (Returned r) = False"
| "in_call p = True"

text \<open>
  \<open>ids\<close> is the list of the account numbers, by address. The locals \<open>first, second\<close> of
  a thread are its two accounts, the one with the smaller number first.
\<close>

definition sorted_pair :: "string list \<Rightarrow> thread \<Rightarrow> nat \<Rightarrow> nat \<Rightarrow> bool" where
  "sorted_pair ids th f sn \<longleftrightarrow>
     f < length ids \<and> sn < length ids \<and> ids ! f < ids ! sn \<and>
     (case t_other th of
        None \<Rightarrow> False
      | Some target \<Rightarrow> (f, sn) = (t_self th, target) \<or> (f, sn) = (target, t_self th))"

definition pc_ok :: "string list \<Rightarrow> thread \<Rightarrow> bool" where
  "pc_ok ids th \<longleftrightarrow>
     t_self th < length ids \<and>
     (case t_other th of None \<Rightarrow> True | Some b \<Rightarrow> b < length ids) \<and>
     (case pc_locks (t_pc th) of None \<Rightarrow> True | Some (f, sn) \<Rightarrow> sorted_pair ids th f sn) \<and>
     (case t_pc th of Exit1 f r \<Rightarrow> f < length ids | _ \<Rightarrow> True)"

text \<open>
  A lock is owned by exactly the thread that is at a point where it holds it, once; a
  free lock is held by nobody.
\<close>

definition lock_ok :: "thread list \<Rightarrow> nat \<Rightarrow> RLock \<Rightarrow> bool" where
  "lock_ok ths a l \<longleftrightarrow>
     (case rl_owner l of
        None \<Rightarrow> rl_count l = 0 \<and> (\<forall>t < length ths. \<not> holds (t_pc (ths ! t)) a)
      | Some t \<Rightarrow> rl_count l = 1 \<and> t < length ths \<and>
          (\<forall>t' < length ths. holds (t_pc (ths ! t')) a \<longleftrightarrow> t' = t))"

definition inv :: "string list \<Rightarrow> sys \<Rightarrow> bool" where
  "inv ids s \<longleftrightarrow>
     map account_number (sys_heap s) = ids \<and> distinct ids \<and>
     length (sys_locks s) = length ids \<and>
     (\<forall>t < length (sys_threads s). pc_ok ids (sys_threads s ! t)) \<and>
     (\<forall>a < length ids. lock_ok (sys_threads s) a (sys_locks s ! a))"

text \<open>The account number of the lock a waiting thread asks for.\<close>

definition key :: "string list \<Rightarrow> pc \<Rightarrow> string" where
  "key ids p = (case wants p of None \<Rightarrow> [] | Some x \<Rightarrow> ids ! x)"

section \<open>Properties of the methods\<close>

subsection \<open>Heap updates\<close>

lemma length_deposit_unlocked: "length (deposit_unlocked h a x) = length h"
  by (simp add: deposit_unlocked_def)

lemma length_withdraw_unlocked: "length (withdraw_unlocked h a x) = length h"
  by (simp add: withdraw_unlocked_def)

lemma nth_deposit_unlocked:
  "a < length h \<Longrightarrow> deposit_unlocked h a x ! b =
     (if b = a then (h ! a)\<lparr>balance_cents := balance_cents (h ! a) + x\<rparr> else h ! b)"
  by (simp add: deposit_unlocked_def)

lemma nth_withdraw_unlocked:
  "a < length h \<Longrightarrow> withdraw_unlocked h a x ! b =
     (if b = a then (h ! a)\<lparr>balance_cents := balance_cents (h ! a) - x\<rparr> else h ! b)"
  by (simp add: withdraw_unlocked_def)

lemma numbers_deposit_unlocked:
  "map account_number (deposit_unlocked h a x) = map account_number h"
  by (cases "a < length h") (simp_all add: deposit_unlocked_def map_update list_update_same_conv list_update_beyond not_less)

lemma numbers_withdraw_unlocked:
  "map account_number (withdraw_unlocked h a x) = map account_number h"
  by (cases "a < length h") (simp_all add: withdraw_unlocked_def map_update list_update_same_conv list_update_beyond not_less)

lemma sum_list_int_update:
  fixes xs :: "int list"
  shows "k < length xs \<Longrightarrow> sum_list (xs[k := v]) = sum_list xs + v - xs ! k"
proof (induction xs arbitrary: k)
  case Nil
  then show ?case by simp
next
  case (Cons y ys)
  then show ?case by (cases k) simp_all
qed

lemma total_deposit_unlocked:
  "a < length h \<Longrightarrow> total (deposit_unlocked h a x) = total h + x"
  by (simp add: total_def deposit_unlocked_def map_update sum_list_int_update)

lemma total_withdraw_unlocked:
  "a < length h \<Longrightarrow> total (withdraw_unlocked h a x) = total h - x"
  by (simp add: total_def withdraw_unlocked_def map_update sum_list_int_update)

lemma length_perform: "length (perform h c) = length h"
proof (cases c)
  case (TransferTo a b x)
  then show ?thesis
    by (simp add: transfer_to_def transfer_body_def length_deposit_unlocked
        length_withdraw_unlocked split: option.splits)
qed (simp_all add: deposit_def withdraw_def length_deposit_unlocked length_withdraw_unlocked)

lemma length_run: "length (run h cs) = length h"
  by (induction cs arbitrary: h) (simp_all add: length_perform)

lemma run_append: "run h (cs @ ds) = run (run h cs) ds"
  by (induction cs arbitrary: h) simp_all

lemma run_take_Suc:
  "k < length cs \<Longrightarrow> run h (take (Suc k) cs) = perform (run h (take k cs)) (cs ! k)"
  by (simp add: take_Suc_conv_app_nth run_append)

subsection \<open>Withdraw and deposit\<close>

text \<open>
  C5. \<open>withdraw(amount)\<close> on an account with balance \<open>b\<close> raises \<open>ValueError\<close>
  (the spec's InvalidArgument) exactly when \<open>amount \<le> 0\<close>, raises
  \<open>InsufficientFundsError\<close> exactly when \<open>amount > 0\<close> and \<open>amount > b\<close>, and returns
  normally exactly when \<open>0 < amount \<le> b\<close>. A call that raises leaves the heap as it
  was, so the balance is still \<open>b\<close>; a call that returns leaves the balance \<open>b - amount\<close>.
\<close>

theorem withdraw_raises_iff:
  assumes "self < length h"
  shows "(fst (withdraw h self x) = Inl (ValueError ''Withdrawal amount must be positive.'')
            \<longleftrightarrow> x \<le> 0)
       \<and> (fst (withdraw h self x) = Inl (InsufficientFundsError ''Insufficient funds.'')
            \<longleftrightarrow> 0 < x \<and> get_balance h self < x)
       \<and> (fst (withdraw h self x) = Inr () \<longleftrightarrow> 0 < x \<and> x \<le> get_balance h self)
       \<and> (fst (withdraw h self x) \<noteq> Inr () \<longrightarrow> snd (withdraw h self x) = h)
       \<and> (fst (withdraw h self x) = Inr () \<longrightarrow>
            get_balance (snd (withdraw h self x)) self = get_balance h self - x)"
  using assms by (simp add: withdraw_def get_balance_def nth_withdraw_unlocked)

theorem withdraw_raises_iff_witness:
  "fst (withdraw [\<lparr>account_number = ''TEST-002'', balance_cents = 2000\<rparr>] 0 3000)
     = Inl (InsufficientFundsError ''Insufficient funds.'')
   \<and> snd (withdraw [\<lparr>account_number = ''TEST-002'', balance_cents = 2000\<rparr>] 0 3000)
     = [\<lparr>account_number = ''TEST-002'', balance_cents = 2000\<rparr>]"
  using withdraw_raises_iff
    [of 0 "[\<lparr>account_number = ''TEST-002'', balance_cents = 2000\<rparr>]" 3000]
  by (simp add: get_balance_def)

text \<open>
  C9. \<open>deposit(amount)\<close> with \<open>amount \<le> 0\<close> raises \<open>ValueError\<close> (the spec's
  InvalidArgument) and leaves the heap as it was; with \<open>amount > 0\<close> it returns normally,
  whatever the amount and the balance, and the balance has grown by exactly \<open>amount\<close>,
  every other account being untouched.
\<close>

theorem deposit_effect:
  assumes "self < length h"
  shows "(x \<le> 0 \<longrightarrow>
            deposit h self x = (Inl (ValueError ''Deposit amount must be positive.''), h))
       \<and> (0 < x \<longrightarrow>
            fst (deposit h self x) = Inr ()
          \<and> get_balance (snd (deposit h self x)) self = get_balance h self + x
          \<and> (\<forall>a. a \<noteq> self \<longrightarrow> snd (deposit h self x) ! a = h ! a))"
  using assms by (simp add: deposit_def get_balance_def nth_deposit_unlocked)

theorem deposit_effect_witness:
  "deposit [\<lparr>account_number = ''TEST-003'', balance_cents = 1000\<rparr>] 0 0
     = (Inl (ValueError ''Deposit amount must be positive.''),
        [\<lparr>account_number = ''TEST-003'', balance_cents = 1000\<rparr>])
   \<and> fst (deposit [\<lparr>account_number = ''TEST-001'', balance_cents = 0\<rparr>] 0 10000) = Inr ()
   \<and> get_balance (snd (deposit [\<lparr>account_number = ''TEST-001'', balance_cents = 0\<rparr>] 0 10000)) 0
     = 10000"
  using deposit_effect [of 0 "[\<lparr>account_number = ''TEST-003'', balance_cents = 1000\<rparr>]" 0]
    deposit_effect [of 0 "[\<lparr>account_number = ''TEST-001'', balance_cents = 0\<rparr>]" 10000]
  by (simp add: get_balance_def)

subsection \<open>Transfer\<close>

text \<open>
  C4. For two distinct accounts and \<open>amount > 0\<close>: when \<open>amount\<close> exceeds the balance
  of the source, \<open>transfer_to\<close> raises \<open>InsufficientFundsError\<close> and the heap, so both
  balances, is as it was; otherwise it returns normally with the source's balance lowered
  by \<open>amount\<close>, the target's raised by \<open>amount\<close> and every other account untouched.
\<close>

theorem transfer_to_effect:
  assumes "self < length h" and "target < length h" and "target \<noteq> self" and "0 < x"
  shows "(get_balance h self < x \<longrightarrow>
            transfer_to h self (Some target) x
              = (Inl (InsufficientFundsError ''Insufficient funds for transfer.''), h))
       \<and> (x \<le> get_balance h self \<longrightarrow>
            fst (transfer_to h self (Some target) x) = Inr ()
          \<and> get_balance (snd (transfer_to h self (Some target) x)) self
              = get_balance h self - x
          \<and> get_balance (snd (transfer_to h self (Some target) x)) target
              = get_balance h target + x
          \<and> (\<forall>a. a \<noteq> self \<and> a \<noteq> target \<longrightarrow>
                snd (transfer_to h self (Some target) x) ! a = h ! a))"
  using assms
  by (simp add: transfer_to_def transfer_body_def get_balance_def nth_deposit_unlocked
      nth_withdraw_unlocked length_withdraw_unlocked)

theorem transfer_to_effect_witness:
  "transfer_to [\<lparr>account_number = ''ACC-A'', balance_cents = 30\<rparr>,
                \<lparr>account_number = ''ACC-B'', balance_cents = 200000\<rparr>] 0 (Some 1) 50
     = (Inl (InsufficientFundsError ''Insufficient funds for transfer.''),
        [\<lparr>account_number = ''ACC-A'', balance_cents = 30\<rparr>,
         \<lparr>account_number = ''ACC-B'', balance_cents = 200000\<rparr>])
   \<and> get_balance (snd (transfer_to [\<lparr>account_number = ''ACC-A'', balance_cents = 100000\<rparr>,
         \<lparr>account_number = ''ACC-B'', balance_cents = 200000\<rparr>] 0 (Some 1) 50)) 0 = 99950
   \<and> get_balance (snd (transfer_to [\<lparr>account_number = ''ACC-A'', balance_cents = 100000\<rparr>,
         \<lparr>account_number = ''ACC-B'', balance_cents = 200000\<rparr>] 0 (Some 1) 50)) 1 = 200050"
  using transfer_to_effect [of 0 "[\<lparr>account_number = ''ACC-A'', balance_cents = 30\<rparr>,
      \<lparr>account_number = ''ACC-B'', balance_cents = 200000\<rparr>]" 1 50]
    transfer_to_effect [of 0 "[\<lparr>account_number = ''ACC-A'', balance_cents = 100000\<rparr>,
      \<lparr>account_number = ''ACC-B'', balance_cents = 200000\<rparr>]" 1 50]
  by (simp add: get_balance_def)

text \<open>
  C7. A transfer whose target is the account itself raises \<open>ValueError\<close> with the
  message of the same-account check (what the spec calls InvalidOperation; the module has
  no exception class of that name) and leaves the heap as it was, whatever the amount and
  the balance.
\<close>

theorem self_transfer_fails:
  "transfer_to h self (Some self) x
     = (Inl (ValueError ''Cannot transfer to the same account.''), h)"
  by (simp add: transfer_to_def)

theorem self_transfer_fails_witness:
  "transfer_to [\<lparr>account_number = ''TEST-003'', balance_cents = 0\<rparr>] 0 (Some 0) 100
     = (Inl (ValueError ''Cannot transfer to the same account.''),
        [\<lparr>account_number = ''TEST-003'', balance_cents = 0\<rparr>])"
  using self_transfer_fails [of "[\<lparr>account_number = ''TEST-003'', balance_cents = 0\<rparr>]" 0 100]
  by simp

text \<open>
  C10. The checks of \<open>transfer_to\<close> run in the order: target is \<open>None\<close>, target is the
  account itself, amount is not positive. So a \<open>None\<close> target gives the error of the
  first check for every amount, a transfer to oneself the error of the second for every
  amount, and only a transfer to another account with an amount \<open>\<le> 0\<close> the error of the
  third; each of them leaves the heap as it was.
\<close>

theorem transfer_to_check_order:
  "transfer_to h self None x = (Inl (ValueError ''Target account cannot be None.''), h)
   \<and> transfer_to h self (Some self) x
       = (Inl (ValueError ''Cannot transfer to the same account.''), h)
   \<and> (target \<noteq> self \<and> x \<le> 0 \<longrightarrow>
        transfer_to h self (Some target) x
          = (Inl (ValueError ''Transfer amount must be positive.''), h))"
  by (simp add: transfer_to_def)

theorem transfer_to_check_order_witness:
  "transfer_to [\<lparr>account_number = ''AAA'', balance_cents = 5\<rparr>,
                \<lparr>account_number = ''BBB'', balance_cents = 7\<rparr>] 0 None (- 3)
     = (Inl (ValueError ''Target account cannot be None.''),
        [\<lparr>account_number = ''AAA'', balance_cents = 5\<rparr>,
         \<lparr>account_number = ''BBB'', balance_cents = 7\<rparr>])
   \<and> transfer_to [\<lparr>account_number = ''AAA'', balance_cents = 5\<rparr>,
                \<lparr>account_number = ''BBB'', balance_cents = 7\<rparr>] 0 (Some 0) (- 3)
     = (Inl (ValueError ''Cannot transfer to the same account.''),
        [\<lparr>account_number = ''AAA'', balance_cents = 5\<rparr>,
         \<lparr>account_number = ''BBB'', balance_cents = 7\<rparr>])
   \<and> transfer_to [\<lparr>account_number = ''AAA'', balance_cents = 5\<rparr>,
                \<lparr>account_number = ''BBB'', balance_cents = 7\<rparr>] 0 (Some 1) (- 3)
     = (Inl (ValueError ''Transfer amount must be positive.''),
        [\<lparr>account_number = ''AAA'', balance_cents = 5\<rparr>,
         \<lparr>account_number = ''BBB'', balance_cents = 7\<rparr>])"
  using transfer_to_check_order [of "[\<lparr>account_number = ''AAA'', balance_cents = 5\<rparr>,
      \<lparr>account_number = ''BBB'', balance_cents = 7\<rparr>]" 0 "- 3" 1]
  by simp

subsection \<open>Construction\<close>

lemma strip_empty_iff: "strip s = [] \<longleftrightarrow> list_all isspace s"
proof
  assume "strip s = []"
  then have "\<forall>c \<in> set (dropWhile isspace s). isspace c"
    by (simp add: strip_def dropWhile_eq_Nil_conv)
  then have "dropWhile isspace s = []"
    using hd_dropWhile [of isspace s] hd_in_set [of "dropWhile isspace s"] by blast
  then show "list_all isspace s"
    by (simp add: dropWhile_eq_Nil_conv list_all_iff)
next
  assume "list_all isspace s"
  then have "dropWhile isspace s = []"
    by (simp add: dropWhile_eq_Nil_conv list_all_iff)
  then show "strip s = []"
    unfolding strip_def by (simp del: dropWhile_eq_Nil_conv)
qed

text \<open>
  C8. \<open>BankAccount(account_number, initial_balance_cents)\<close> raises exactly when the
  account number is empty or consists of whitespace only, or the initial balance is
  negative; what it raises is \<open>ValueError\<close> (the spec's InvalidArgument), the check of
  the account number coming first. Otherwise construction succeeds, with the number and
  the balance it was given.
\<close>

theorem init_fails_iff:
  "((\<exists>m. BankAccount_init n b = Inl (ValueError m))
       \<longleftrightarrow> n = [] \<or> list_all isspace n \<or> b < 0)
   \<and> (BankAccount_init n b = Inl (ValueError ''Account number must not be empty.'')
       \<longleftrightarrow> n = [] \<or> list_all isspace n)
   \<and> (BankAccount_init n b = Inr \<lparr>account_number = n, balance_cents = b\<rparr>
       \<longleftrightarrow> \<not> (n = [] \<or> list_all isspace n \<or> b < 0))
   \<and> (\<forall>e. BankAccount_init n b \<noteq> Inl (InsufficientFundsError e))"
  by (auto simp add: BankAccount_init_def strip_empty_iff)

theorem init_fails_iff_witness:
  "BankAccount_init '''' 0 = Inl (ValueError ''Account number must not be empty.'')
   \<and> BankAccount_init [CHR '' '', CHR 0x09, CHR '' ''] 0
       = Inl (ValueError ''Account number must not be empty.'')
   \<and> (\<exists>m. BankAccount_init ''ACC-001'' (- 1) = Inl (ValueError m))
   \<and> BankAccount_init '' ACC 001 '' 100000
       = Inr \<lparr>account_number = '' ACC 001 '', balance_cents = 100000\<rparr>"
  using init_fails_iff [of "''''" 0] init_fails_iff [of "[CHR '' '', CHR 0x09, CHR '' '']" 0]
    init_fails_iff [of "''ACC-001''" "- 1"] init_fails_iff [of "'' ACC 001 ''" 100000]
  by (simp add: isspace_def)

subsection \<open>Sequences of calls\<close>

lemma constructed_nonneg: "constructed a \<Longrightarrow> 0 \<le> balance_cents a"
  by (simp add: constructed_def BankAccount_init_def split: if_splits)

lemma total_transfer_to:
  assumes "call_ok (length h) (TransferTo a b x)"
  shows "total (snd (transfer_to h a b x)) = total h"
proof (cases b)
  case None
  then show ?thesis by (simp add: transfer_to_def)
next
  case (Some target)
  with assms have "a < length h" and "target < length h" by simp_all
  then show ?thesis
    using Some
    by (simp add: transfer_to_def transfer_body_def total_deposit_unlocked
        total_withdraw_unlocked length_withdraw_unlocked)
qed

lemma perform_nonneg:
  assumes "nonneg h" and "call_ok (length h) c"
  shows "nonneg (perform h c)"
proof (cases c)
  case (GetBalance a)
  with assms show ?thesis by simp
next
  case (Deposit a x)
  with assms show ?thesis
    by (auto simp add: nonneg_def deposit_def length_deposit_unlocked nth_deposit_unlocked)
next
  case (Withdraw a x)
  with assms show ?thesis
    by (auto simp add: nonneg_def withdraw_def length_withdraw_unlocked nth_withdraw_unlocked)
next
  case (TransferTo a b x)
  show ?thesis
  proof (cases b)
    case None
    with TransferTo assms show ?thesis by (simp add: transfer_to_def)
  next
    case (Some target)
    with TransferTo assms have "a < length h" and "target < length h" by simp_all
    with TransferTo Some assms(1) show ?thesis
      by (auto simp add: nonneg_def transfer_to_def transfer_body_def length_deposit_unlocked
          length_withdraw_unlocked nth_deposit_unlocked nth_withdraw_unlocked)
  qed
qed

lemma run_nonneg:
  "nonneg h \<Longrightarrow> \<forall>c \<in> set cs. call_ok (length h) c \<Longrightarrow> nonneg (run h cs)"
proof (induction cs arbitrary: h)
  case Nil
  then show ?case by simp
next
  case (Cons c cs)
  from Cons.prems have "nonneg (perform h c)"
    by (simp add: perform_nonneg)
  moreover from Cons.prems have "\<forall>d \<in> set cs. call_ok (length (perform h c)) d"
    by (simp add: length_perform)
  ultimately show ?case
    using Cons.IH by simp
qed

lemma perform_failed_unchanged: "outcome h c \<noteq> Inr () \<Longrightarrow> perform h c = h"
proof (cases c)
  case (TransferTo a b x)
  assume "outcome h c \<noteq> Inr ()"
  with TransferTo show ?thesis
    by (cases b) (auto simp add: transfer_to_def transfer_body_def split: if_splits)
qed (auto simp add: deposit_def withdraw_def split: if_splits)

text \<open>
  C1. Conservation. When the calls made are \<open>transfer_to\<close> calls only, between any
  accounts of the heap and with any targets and amounts, the sum of all balances after
  the sequence is the sum before it; the calls that raise are part of the sequence.
\<close>

theorem transfers_conserve_total:
  assumes "\<forall>c \<in> set cs. is_transfer c \<and> call_ok (length h) c"
  shows "total (run h cs) = total h"
  using assms
proof (induction cs arbitrary: h)
  case Nil
  then show ?case by simp
next
  case (Cons c cs)
  from Cons.prems obtain a b x where c: "c = TransferTo a b x"
    by (cases c) auto
  with Cons.prems have step: "total (perform h c) = total h"
    by (simp add: total_transfer_to)
  from Cons.prems have "\<forall>d \<in> set cs. is_transfer d \<and> call_ok (length (perform h c)) d"
    by (simp add: length_perform)
  then have "total (run (perform h c) cs) = total (perform h c)"
    by (rule Cons.IH)
  with step show ?case by simp
qed

theorem transfers_conserve_total_witness:
  "total (run [\<lparr>account_number = ''ACC-A'', balance_cents = 100\<rparr>,
               \<lparr>account_number = ''ACC-B'', balance_cents = 200\<rparr>,
               \<lparr>account_number = ''ACC-C'', balance_cents = 0\<rparr>]
            [TransferTo 0 (Some 1) 50, TransferTo 1 (Some 2) 250, TransferTo 2 (Some 0) 10,
             TransferTo 1 (Some 1) 5, TransferTo 0 None 5, TransferTo 0 (Some 2) 0])
     = 300
   \<and> run [\<lparr>account_number = ''ACC-A'', balance_cents = 100\<rparr>,
          \<lparr>account_number = ''ACC-B'', balance_cents = 200\<rparr>,
          \<lparr>account_number = ''ACC-C'', balance_cents = 0\<rparr>]
       [TransferTo 0 (Some 1) 50, TransferTo 1 (Some 2) 250, TransferTo 2 (Some 0) 10,
        TransferTo 1 (Some 1) 5, TransferTo 0 None 5, TransferTo 0 (Some 2) 0]
     = [\<lparr>account_number = ''ACC-A'', balance_cents = 60\<rparr>,
        \<lparr>account_number = ''ACC-B'', balance_cents = 0\<rparr>,
        \<lparr>account_number = ''ACC-C'', balance_cents = 240\<rparr>]"
  using transfers_conserve_total
    [of "[TransferTo 0 (Some 1) 50, TransferTo 1 (Some 2) 250, TransferTo 2 (Some 0) 10,
          TransferTo 1 (Some 1) 5, TransferTo 0 None 5, TransferTo 0 (Some 2) 0]"
        "[\<lparr>account_number = ''ACC-A'', balance_cents = 100\<rparr>,
          \<lparr>account_number = ''ACC-B'', balance_cents = 200\<rparr>,
          \<lparr>account_number = ''ACC-C'', balance_cents = 0\<rparr>]"]
  by (simp add: total_def transfer_to_def transfer_body_def deposit_unlocked_def
      withdraw_unlocked_def)

text \<open>
  C3. Non-negativity. In a heap whose objects all come from the constructor (which
  refuses a negative initial balance), after every call of any sequence of
  \<open>get_balance\<close>, \<open>deposit\<close>, \<open>withdraw\<close> and \<open>transfer_to\<close> calls, whether it returned
  or raised, the balance of every account is \<open>\<ge> 0\<close>; and a call that raised has left the
  whole heap as it found it, so nothing is half done.
\<close>

theorem balance_never_negative:
  assumes "list_all constructed h" and "\<forall>c \<in> set cs. call_ok (length h) c"
    and "k \<le> length cs" and "a < length h"
  shows "0 \<le> get_balance (run h (take k cs)) a
       \<and> (k < length cs \<and> outcome (run h (take k cs)) (cs ! k) \<noteq> Inr () \<longrightarrow>
            run h (take (Suc k) cs) = run h (take k cs))"
proof -
  from assms(1) have "nonneg h"
    by (simp add: nonneg_def list_all_length constructed_nonneg)
  moreover from assms(2) have "\<forall>c \<in> set (take k cs). call_ok (length h) c"
    by (meson in_set_takeD)
  ultimately have "nonneg (run h (take k cs))"
    by (rule run_nonneg)
  with assms(4) have "0 \<le> get_balance (run h (take k cs)) a"
    by (simp add: nonneg_def get_balance_def length_run)
  then show ?thesis
    by (simp add: run_take_Suc perform_failed_unchanged)
qed

theorem balance_never_negative_witness:
  "0 \<le> get_balance (run [\<lparr>account_number = ''AAA'', balance_cents = 100\<rparr>,
                          \<lparr>account_number = ''BBB'', balance_cents = 0\<rparr>]
                       (take 3 [Deposit 1 20, Withdraw 1 50, TransferTo 0 (Some 1) 100,
                                TransferTo 0 (Some 1) 1, GetBalance 0])) 0
   \<and> run [\<lparr>account_number = ''AAA'', balance_cents = 100\<rparr>,
          \<lparr>account_number = ''BBB'', balance_cents = 0\<rparr>]
       (take (Suc 3) [Deposit 1 20, Withdraw 1 50, TransferTo 0 (Some 1) 100,
                TransferTo 0 (Some 1) 1, GetBalance 0])
     = run [\<lparr>account_number = ''AAA'', balance_cents = 100\<rparr>,
          \<lparr>account_number = ''BBB'', balance_cents = 0\<rparr>]
       (take 3 [Deposit 1 20, Withdraw 1 50, TransferTo 0 (Some 1) 100,
                TransferTo 0 (Some 1) 1, GetBalance 0])
   \<and> run [\<lparr>account_number = ''AAA'', balance_cents = 100\<rparr>,
          \<lparr>account_number = ''BBB'', balance_cents = 0\<rparr>]
       (take 3 [Deposit 1 20, Withdraw 1 50, TransferTo 0 (Some 1) 100,
                TransferTo 0 (Some 1) 1, GetBalance 0])
     = [\<lparr>account_number = ''AAA'', balance_cents = 0\<rparr>,
        \<lparr>account_number = ''BBB'', balance_cents = 120\<rparr>]"
  using balance_never_negative
    [of "[\<lparr>account_number = ''AAA'', balance_cents = 100\<rparr>,
          \<lparr>account_number = ''BBB'', balance_cents = 0\<rparr>]"
        "[Deposit 1 20, Withdraw 1 50, TransferTo 0 (Some 1) 100,
          TransferTo 0 (Some 1) 1, GetBalance 0]" 3 0]
  by (simp add: constructed_def BankAccount_init_def strip_def isspace_def get_balance_def
      deposit_def withdraw_def transfer_to_def transfer_body_def deposit_unlocked_def
      withdraw_unlocked_def)

lemma ledger_step:
  assumes "self < length h" and "on_account self c"
  shows "get_balance (perform h c) self
           = get_balance h self
             + (case c of Deposit a x \<Rightarrow> (if a = self \<and> outcome h c = Inr () then x else 0)
                | _ \<Rightarrow> 0)
             - (case c of Withdraw a x \<Rightarrow> (if a = self \<and> outcome h c = Inr () then x else 0)
                | _ \<Rightarrow> 0)"
  using assms
  by (cases c)
    (simp_all add: get_balance_def deposit_def withdraw_def nth_deposit_unlocked
      nth_withdraw_unlocked)

lemma ledger_run:
  assumes "self < length h" and "\<forall>c \<in> set cs. on_account self c"
  shows "get_balance (run h cs) self
           = get_balance h self + deposited h self cs - withdrawn h self cs"
  using assms
proof (induction cs arbitrary: h)
  case Nil
  then show ?case by simp
next
  case (Cons c cs)
  from Cons.prems have c: "on_account self c" and cs: "\<forall>d \<in> set cs. on_account self d"
    by simp_all
  from Cons.prems(1) have "self < length (perform h c)"
    by (simp add: length_perform)
  then have "get_balance (run (perform h c) cs) self
      = get_balance (perform h c) self + deposited (perform h c) self cs
        - withdrawn (perform h c) self cs"
    using cs by (rule Cons.IH)
  then show ?case
    using ledger_step [OF Cons.prems(1) c] by simp
qed

lemma own_balance_nonneg:
  assumes "self < length h" and "0 \<le> get_balance h self"
    and "\<forall>c \<in> set cs. on_account self c"
  shows "0 \<le> get_balance (run h cs) self"
  using assms
proof (induction cs arbitrary: h)
  case Nil
  then show ?case by simp
next
  case (Cons c cs)
  from Cons.prems have c: "on_account self c" and cs: "\<forall>d \<in> set cs. on_account self d"
    by simp_all
  have "0 \<le> get_balance (perform h c) self"
    using c Cons.prems(1,2)
    by (cases c)
      (auto simp add: get_balance_def deposit_def withdraw_def nth_deposit_unlocked
        nth_withdraw_unlocked)
  moreover from Cons.prems(1) have "self < length (perform h c)"
    by (simp add: length_perform)
  ultimately have "0 \<le> get_balance (run (perform h c) cs) self"
    using cs Cons.IH by blast
  then show ?case by simp
qed

text \<open>
  C6. Ledger equation. For one account, made by the constructor with the balance
  \<open>initial\<close>, after any finite sequence of \<open>deposit\<close> and \<open>withdraw\<close> calls on it the
  balance is \<open>initial\<close> plus the amounts of the deposits that returned normally minus the
  amounts of the withdrawals that returned normally, and after every call of the sequence
  the balance is \<open>\<ge> 0\<close>.
\<close>

theorem ledger_equation:
  assumes "self < length h" and "BankAccount_init n initial = Inr (h ! self)"
    and "\<forall>c \<in> set cs. on_account self c"
  shows "get_balance (run h cs) self = initial + deposited h self cs - withdrawn h self cs
       \<and> (\<forall>k \<le> length cs. 0 \<le> get_balance (run h (take k cs)) self)"
proof -
  from assms(2) [symmetric] have init: "get_balance h self = initial" and "0 \<le> initial"
    by (auto simp add: BankAccount_init_def get_balance_def split: if_splits)
  have "0 \<le> get_balance (run h (take k cs)) self" for k
  proof -
    have "\<forall>c \<in> set (take k cs). on_account self c"
      using assms(3) by (meson in_set_takeD)
    with assms(1) init \<open>0 \<le> initial\<close> show ?thesis
      by (simp add: own_balance_nonneg)
  qed
  then show ?thesis
    using ledger_run [OF assms(1,3)] init by simp
qed

theorem ledger_equation_witness:
  "get_balance (run [\<lparr>account_number = ''TEST-001'', balance_cents = 0\<rparr>]
                  [Deposit 0 10000, Withdraw 0 4000, Withdraw 0 7000, Deposit 0 0]) 0 = 6000
   \<and> deposited [\<lparr>account_number = ''TEST-001'', balance_cents = 0\<rparr>] 0
        [Deposit 0 10000, Withdraw 0 4000, Withdraw 0 7000, Deposit 0 0] = 10000
   \<and> withdrawn [\<lparr>account_number = ''TEST-001'', balance_cents = 0\<rparr>] 0
        [Deposit 0 10000, Withdraw 0 4000, Withdraw 0 7000, Deposit 0 0] = 4000"
  using ledger_equation
    [of 0 "[\<lparr>account_number = ''TEST-001'', balance_cents = 0\<rparr>]" "''TEST-001''" 0
        "[Deposit 0 10000, Withdraw 0 4000, Withdraw 0 7000, Deposit 0 0]"]
  by (simp add: BankAccount_init_def strip_def isspace_def get_balance_def
      deposit_def withdraw_def deposit_unlocked_def withdraw_unlocked_def)

section \<open>Properties of concurrent transfers\<close>

lemma transfer_ok_iff:
  "transfer_ok n c \<longleftrightarrow> fst c < n \<and> (case fst (snd c) of None \<Rightarrow> True | Some b \<Rightarrow> b < n)"
  by (cases "fst (snd c)") (simp_all add: transfer_ok_def)

lemma pc_ok_new_thread: "transfer_ok (length ids) c \<Longrightarrow> pc_ok ids (new_thread c)"
  by (simp add: transfer_ok_iff new_thread_def pc_ok_def)

lemma pc_ok_pair:
  "pc_ok ids th \<Longrightarrow> pc_locks (t_pc th) = Some (f, sn) \<Longrightarrow> sorted_pair ids th f sn"
  by (simp add: pc_ok_def)

lemma pc_ok_set_pair:
  assumes "pc_ok ids th" and "sorted_pair ids th f sn" and "pc_locks p' = Some (f, sn)"
  shows "pc_ok ids (th\<lparr>t_pc := p'\<rparr>)"
  using assms by (cases p') (auto simp add: pc_ok_def sorted_pair_def split: option.splits)

lemma pc_ok_set_returned: "pc_ok ids th \<Longrightarrow> pc_ok ids (th\<lparr>t_pc := Returned r\<rparr>)"
  by (simp add: pc_ok_def)

lemma pc_ok_set_exit1:
  "pc_ok ids th \<Longrightarrow> f < length ids \<Longrightarrow> pc_ok ids (th\<lparr>t_pc := Exit1 f r\<rparr>)"
  by (simp add: pc_ok_def)

lemma inv_init:
  assumes "distinct (map account_number h)" and "\<forall>c \<in> set calls. transfer_ok (length h) c"
  shows "inv (map account_number h) (init_sys h calls)"
proof -
  have "pc_ok (map account_number h) (map new_thread calls ! t)" if "t < length calls" for t
    using that assms(2) by (simp add: pc_ok_new_thread)
  moreover have "lock_ok (map new_thread calls) a RLock_new" for a
    by (simp add: lock_ok_def RLock_new_def new_thread_def)
  ultimately show ?thesis
    using assms(1) by (simp add: inv_def init_sys_def)
qed


lemma lock_ok_other:
  assumes "t < length ths" and "holds p' a \<longleftrightarrow> holds (t_pc (ths ! t)) a"
    and "lock_ok ths a l"
  shows "lock_ok (ths[t := (ths ! t)\<lparr>t_pc := p'\<rparr>]) a l"
proof -
  have "holds (t_pc ((ths[t := (ths ! t)\<lparr>t_pc := p'\<rparr>]) ! u)) a \<longleftrightarrow> holds (t_pc (ths ! u)) a"
    if "u < length ths" for u
    using that assms(1,2) by (cases "u = t") simp_all
  with assms(3) show ?thesis
    by (simp add: lock_ok_def split: option.splits)
qed

lemma lock_ok_acquire:
  assumes "t < length ths" and "\<not> holds (t_pc (ths ! t)) x" and "holds p' x"
    and "acquirable l t" and "lock_ok ths x l"
  shows "lock_ok (ths[t := (ths ! t)\<lparr>t_pc := p'\<rparr>]) x (acquire l t)"
proof -
  from assms(1,2,5) have "rl_owner l \<noteq> Some t"
    by (auto simp add: lock_ok_def)
  with assms(4) have free: "rl_owner l = None"
    by (simp add: acquirable_def)
  with assms(5) have "rl_count l = 0" and "\<forall>u < length ths. \<not> holds (t_pc (ths ! u)) x"
    by (simp_all add: lock_ok_def)
  then show ?thesis
    using assms(1,3) by (simp add: lock_ok_def acquire_def nth_list_update)
qed

lemma lock_ok_release:
  assumes "t < length ths" and "holds (t_pc (ths ! t)) x" and "\<not> holds p' x"
    and "lock_ok ths x l"
  shows "lock_ok (ths[t := (ths ! t)\<lparr>t_pc := p'\<rparr>]) x (release l)"
proof -
  from assms(1,2,4) have "rl_owner l = Some t"
    by (cases "rl_owner l") (auto simp add: lock_ok_def)
  with assms(4) have "rl_count l = 1" and "\<forall>u < length ths. holds (t_pc (ths ! u)) x \<longleftrightarrow> u = t"
    by (simp_all add: lock_ok_def)
  then show ?thesis
    using assms(1,3) by (simp add: lock_ok_def release_def RLock_new_def nth_list_update)
qed


lemma numbers_transfer_body:
  "map account_number (snd (transfer_body h a b x)) = map account_number h"
  by (simp add: transfer_body_def numbers_deposit_unlocked numbers_withdraw_unlocked)

lemma inv_update:
  assumes "inv ids s" and "t < length (sys_threads s)"
    and "map account_number (sys_heap s') = ids" and "length (sys_locks s') = length ids"
    and "sys_threads s' = (sys_threads s)[t := (sys_threads s ! t)\<lparr>t_pc := p'\<rparr>]"
    and "pc_ok ids ((sys_threads s ! t)\<lparr>t_pc := p'\<rparr>)"
    and "\<forall>a < length ids.
           lock_ok ((sys_threads s)[t := (sys_threads s ! t)\<lparr>t_pc := p'\<rparr>]) a
             (sys_locks s' ! a)"
  shows "inv ids s'"
proof -
  have "pc_ok ids ((sys_threads s)[t := (sys_threads s ! t)\<lparr>t_pc := p'\<rparr>] ! u)"
    if "u < length (sys_threads s)" for u
  proof (cases "u = t")
    case True
    with assms(2,6) show ?thesis by (simp)
  next
    case False
    with that assms(1) show ?thesis by (simp add: inv_def)
  qed
  with assms show ?thesis
    by (simp add: inv_def)
qed

lemma step_nolock:
  assumes "inv ids s" and "t < length (sys_threads s)"
    and "map account_number h' = ids"
    and "pc_ok ids ((sys_threads s ! t)\<lparr>t_pc := p'\<rparr>)"
    and "\<forall>a. holds p' a \<longleftrightarrow> holds (t_pc (sys_threads s ! t)) a"
  shows "inv ids (set_pc (s\<lparr>sys_heap := h'\<rparr>) t p')"
proof -
  have "\<forall>a < length ids.
      lock_ok ((sys_threads s)[t := (sys_threads s ! t)\<lparr>t_pc := p'\<rparr>]) a (sys_locks s ! a)"
    using assms(1,2,5) by (simp add: inv_def lock_ok_other)
  moreover from assms(1) have "length (sys_locks s) = length ids"
    by (simp add: inv_def)
  ultimately show ?thesis
    using assms(1-4) by - (rule inv_update [of ids s t _ p'], simp_all add: set_pc_def)
qed

lemma step_acquire:
  assumes "inv ids s" and "t < length (sys_threads s)" and "x < length ids"
    and "pc_ok ids ((sys_threads s ! t)\<lparr>t_pc := p'\<rparr>)"
    and "\<forall>a. holds p' a \<longleftrightarrow> holds (t_pc (sys_threads s ! t)) a \<or> a = x"
    and "\<not> holds (t_pc (sys_threads s ! t)) x"
    and "acquirable (sys_locks s ! x) t"
  shows "inv ids (set_pc (set_lock s x (acquire (sys_locks s ! x) t)) t p')"
proof -
  from assms(1) have len: "length (sys_locks s) = length ids"
    and ok: "\<forall>a < length ids. lock_ok (sys_threads s) a (sys_locks s ! a)"
    by (simp_all add: inv_def)
  have "lock_ok ((sys_threads s)[t := (sys_threads s ! t)\<lparr>t_pc := p'\<rparr>]) a
          ((sys_locks s)[x := acquire (sys_locks s ! x) t] ! a)"
    if "a < length ids" for a
  proof (cases "a = x")
    case True
    with that len ok assms(2,5,6,7) show ?thesis
      by (simp add: lock_ok_acquire)
  next
    case False
    with that len ok assms(2,5) show ?thesis
      by (simp add: lock_ok_other)
  qed
  then show ?thesis
    using assms(1,2,4) len
    by - (rule inv_update [of ids s t _ p'], simp_all add: inv_def set_pc_def set_lock_def)
qed

lemma step_release:
  assumes "inv ids s" and "t < length (sys_threads s)" and "x < length ids"
    and "pc_ok ids ((sys_threads s ! t)\<lparr>t_pc := p'\<rparr>)"
    and "\<forall>a. holds p' a \<longleftrightarrow> holds (t_pc (sys_threads s ! t)) a \<and> a \<noteq> x"
    and "holds (t_pc (sys_threads s ! t)) x"
  shows "inv ids (set_pc (set_lock s x (release (sys_locks s ! x))) t p')"
proof -
  from assms(1) have len: "length (sys_locks s) = length ids"
    and ok: "\<forall>a < length ids. lock_ok (sys_threads s) a (sys_locks s ! a)"
    by (simp_all add: inv_def)
  have "lock_ok ((sys_threads s)[t := (sys_threads s ! t)\<lparr>t_pc := p'\<rparr>]) a
          ((sys_locks s)[x := release (sys_locks s ! x)] ! a)"
    if "a < length ids" for a
  proof (cases "a = x")
    case True
    with that len ok assms(2,5,6) show ?thesis
      by (simp add: lock_ok_release)
  next
    case False
    with that len ok assms(2,5) show ?thesis
      by (simp add: lock_ok_other)
  qed
  then show ?thesis
    using assms(1,2,4) len
    by - (rule inv_update [of ids s t _ p'], simp_all add: inv_def set_pc_def set_lock_def)
qed


lemma lock_order_sorted:
  assumes "map account_number h = ids" and "distinct ids"
    and "a < length ids" and "b < length ids" and "a \<noteq> b"
    and "lock_order h a b = (f, sn)"
  shows "f < length ids \<and> sn < length ids \<and> ids ! f < ids ! sn
       \<and> ((f, sn) = (a, b) \<or> (f, sn) = (b, a))"
proof -
  from assms(1,3,4) have a: "account_number (h ! a) = ids ! a"
    and b: "account_number (h ! b) = ids ! b"
    by auto
  from assms(2-5) have "ids ! a \<noteq> ids ! b"
    by (simp add: nth_eq_iff_index_eq)
  with assms(3,4,6) a b show ?thesis
    by (auto simp add: lock_order_def split: if_splits)
qed

lemma step_inv:
  assumes "inv ids s" and "t < length (sys_threads s)" and "step_thread s t = Some s'"
  shows "inv ids s'"
proof -
  define th where "th = sys_threads s ! t"
  from assms(1,2) have ok: "pc_ok ids th"
    by (simp add: inv_def th_def)
  from assms(1) have ids: "map account_number (sys_heap s) = ids" and dist: "distinct ids"
    by (simp_all add: inv_def)
  have returned: "inv ids (set_pc (s\<lparr>sys_heap := sys_heap s\<rparr>) t (Returned r))"
    if "t_pc th = Entry" for r
    using assms(1,2) ids pc_ok_set_returned [OF ok] that
    by (intro step_nolock) (simp_all add: th_def)
  show ?thesis
  proof (cases "t_pc th")
    case Entry
    show ?thesis
    proof (cases "t_other th")
      case None
      with Entry assms(3) have "s' = set_pc (s\<lparr>sys_heap := sys_heap s\<rparr>) t
          (Returned (Inl (ValueError ''Target account cannot be None.'')))"
        by (simp add: step_thread_def th_def [symmetric])
      with returned [OF Entry] show ?thesis by simp
    next
      case (Some target)
      show ?thesis
      proof (cases "target = t_self th \<or> t_amount th \<le> 0")
        case True
        with Entry Some assms(3) obtain e where "s' = set_pc (s\<lparr>sys_heap := sys_heap s\<rparr>) t
            (Returned (Inl e))"
          by (auto simp add: step_thread_def th_def [symmetric] split: if_splits)
        with returned [OF Entry] show ?thesis by simp
      next
        case False
        obtain f sn where lo: "lock_order (sys_heap s) (t_self th) target = (f, sn)"
          by (cases "lock_order (sys_heap s) (t_self th) target")
        with False Entry Some assms(3)
        have s': "s' = set_pc (s\<lparr>sys_heap := sys_heap s\<rparr>) t (Acquire1 f sn)"
          by (simp add: step_thread_def th_def [symmetric])
        from ok Some have "t_self th < length ids" and "target < length ids"
          by (simp_all add: pc_ok_def)
        with ids dist False lo have "f < length ids \<and> sn < length ids \<and> ids ! f < ids ! sn
            \<and> ((f, sn) = (t_self th, target) \<or> (f, sn) = (target, t_self th))"
          by (intro lock_order_sorted [of "sys_heap s" ids "t_self th" target]) auto
        with Some have "sorted_pair ids th f sn"
          by (simp add: sorted_pair_def)
        with ok have "pc_ok ids (th\<lparr>t_pc := Acquire1 f sn\<rparr>)"
          by (rule pc_ok_set_pair) simp
        then have "inv ids (set_pc (s\<lparr>sys_heap := sys_heap s\<rparr>) t (Acquire1 f sn))"
          using assms(1,2) ids Entry by (intro step_nolock) (simp_all add: th_def)
        with s' show ?thesis by simp
      qed
    qed
  next
    case (Acquire1 f sn)
    with assms(3) have acq: "acquirable (sys_locks s ! f) t"
      and s': "s' = set_pc (set_lock s f (acquire (sys_locks s ! f) t)) t (Acquire2 f sn)"
      by (simp_all add: step_thread_def th_def [symmetric] split: if_splits)
    from ok Acquire1 have pair: "sorted_pair ids th f sn"
      by (simp add: pc_ok_pair)
    with ok have "pc_ok ids (th\<lparr>t_pc := Acquire2 f sn\<rparr>)"
      by (rule pc_ok_set_pair) simp
    moreover from pair have "f < length ids"
      by (simp add: sorted_pair_def)
    ultimately
    have "inv ids (set_pc (set_lock s f (acquire (sys_locks s ! f) t)) t (Acquire2 f sn))"
      using assms(1,2) acq Acquire1 by (intro step_acquire) (simp_all add: th_def)
    with s' show ?thesis by simp
  next
    case (Acquire2 f sn)
    with assms(3) have acq: "acquirable (sys_locks s ! sn) t"
      and s': "s' = set_pc (set_lock s sn (acquire (sys_locks s ! sn) t)) t (Critical f sn)"
      by (simp_all add: step_thread_def th_def [symmetric] split: if_splits)
    from ok Acquire2 have pair: "sorted_pair ids th f sn"
      by (simp add: pc_ok_pair)
    with ok have "pc_ok ids (th\<lparr>t_pc := Critical f sn\<rparr>)"
      by (rule pc_ok_set_pair) simp
    moreover from pair have "sn < length ids" and "f \<noteq> sn"
      by (auto simp add: sorted_pair_def)
    ultimately
    have "inv ids (set_pc (set_lock s sn (acquire (sys_locks s ! sn) t)) t (Critical f sn))"
      using assms(1,2) acq Acquire2 by (intro step_acquire) (auto simp add: th_def)
    with s' show ?thesis by simp
  next
    case (Critical f sn)
    with ok have pair: "sorted_pair ids th f sn"
      by (simp add: pc_ok_pair)
    then obtain target where target: "t_other th = Some target"
      by (auto simp add: sorted_pair_def split: option.splits)
    obtain r h' where body: "transfer_body (sys_heap s) (t_self th) target (t_amount th) = (r, h')"
      by (cases "transfer_body (sys_heap s) (t_self th) target (t_amount th)")
    with Critical target assms(3) have s': "s' = set_pc (s\<lparr>sys_heap := h'\<rparr>) t (Exit2 f sn r)"
      by (simp add: step_thread_def th_def [symmetric])
    from body ids have "map account_number h' = ids"
      using numbers_transfer_body [of "sys_heap s" "t_self th" target "t_amount th"] by simp
    moreover from ok pair have "pc_ok ids (th\<lparr>t_pc := Exit2 f sn r\<rparr>)"
      by (rule pc_ok_set_pair) simp
    ultimately have "inv ids (set_pc (s\<lparr>sys_heap := h'\<rparr>) t (Exit2 f sn r))"
      using assms(1,2) Critical by (intro step_nolock) (simp_all add: th_def)
    with s' show ?thesis by simp
  next
    case (Exit2 f sn r)
    with assms(3)
    have s': "s' = set_pc (set_lock s sn (release (sys_locks s ! sn))) t (Exit1 f r)"
      by (simp add: step_thread_def th_def [symmetric])
    from ok Exit2 have pair: "sorted_pair ids th f sn"
      by (simp add: pc_ok_pair)
    then have "f < length ids" and "sn < length ids" and "f \<noteq> sn"
      by (auto simp add: sorted_pair_def)
    moreover from ok \<open>f < length ids\<close> have "pc_ok ids (th\<lparr>t_pc := Exit1 f r\<rparr>)"
      by (rule pc_ok_set_exit1)
    ultimately
    have "inv ids (set_pc (set_lock s sn (release (sys_locks s ! sn))) t (Exit1 f r))"
      using assms(1,2) Exit2 by (intro step_release) (auto simp add: th_def)
    with s' show ?thesis by simp
  next
    case (Exit1 f r)
    with assms(3)
    have s': "s' = set_pc (set_lock s f (release (sys_locks s ! f))) t (Returned r)"
      by (simp add: step_thread_def th_def [symmetric])
    from ok Exit1 have "f < length ids"
      by (simp add: pc_ok_def)
    then have "inv ids (set_pc (set_lock s f (release (sys_locks s ! f))) t (Returned r))"
      using assms(1,2) Exit1 pc_ok_set_returned [OF ok]
      by (intro step_release) (auto simp add: th_def)
    with s' show ?thesis by simp
  next
    case (Returned r)
    with assms(3) show ?thesis
      by (simp add: step_thread_def th_def [symmetric])
  qed
qed

lemma holds_in_call: "holds p a \<Longrightarrow> in_call p"
  by (cases p) simp_all

lemma blocked_wants:
  assumes "pc_ok ids (sys_threads s ! t)" and "in_call (t_pc (sys_threads s ! t))"
    and "step_thread s t = None"
  shows "\<exists>x. wants (t_pc (sys_threads s ! t)) = Some x \<and> x < length ids
             \<and> \<not> acquirable (sys_locks s ! x) t"
  using assms
  by (cases "t_pc (sys_threads s ! t)")
    (auto simp add: step_thread_def Let_def pc_ok_def sorted_pair_def
      split: if_splits option.splits prod.splits)

lemma blocked_chain:
  assumes "inv ids s" and "t < length (sys_threads s)"
    and "in_call (t_pc (sys_threads s ! t))"
    and stuck: "\<forall>u < length (sys_threads s).
                  in_call (t_pc (sys_threads s ! u)) \<longrightarrow> step_thread s u = None"
  shows "\<exists>u < length (sys_threads s). in_call (t_pc (sys_threads s ! u))
           \<and> key ids (t_pc (sys_threads s ! t)) < key ids (t_pc (sys_threads s ! u))"
proof -
  from assms(1,2) have "pc_ok ids (sys_threads s ! t)"
    by (simp add: inv_def)
  moreover from stuck assms(2,3) have "step_thread s t = None"
    by simp
  ultimately obtain x where x: "wants (t_pc (sys_threads s ! t)) = Some x"
    and xlen: "x < length ids" and busy: "\<not> acquirable (sys_locks s ! x) t"
    using assms(3) blocked_wants by blast
  from busy obtain u where owner: "rl_owner (sys_locks s ! x) = Some u"
    by (auto simp add: acquirable_def)
  from assms(1) xlen have "lock_ok (sys_threads s) x (sys_locks s ! x)"
    by (simp add: inv_def)
  with owner have u: "u < length (sys_threads s)" and hu: "holds (t_pc (sys_threads s ! u)) x"
    by (simp_all add: lock_ok_def)
  from hu have call: "in_call (t_pc (sys_threads s ! u))"
    by (rule holds_in_call)
  with stuck u have "step_thread s u = None"
    by simp
  moreover from assms(1) u have oku: "pc_ok ids (sys_threads s ! u)"
    by (simp add: inv_def)
  ultimately obtain y where y: "wants (t_pc (sys_threads s ! u)) = Some y"
    using call blocked_wants by blast
  from y hu oku have "ids ! x < ids ! y"
    by (cases "t_pc (sys_threads s ! u)") (auto simp add: pc_ok_def sorted_pair_def)
  with x y have "key ids (t_pc (sys_threads s ! t)) < key ids (t_pc (sys_threads s ! u))"
    by (simp add: key_def)
  with u call show ?thesis by blast
qed

lemma progress_in_call:
  assumes "inv ids s" and "t < length (sys_threads s)"
    and "in_call (t_pc (sys_threads s ! t))"
  shows "\<exists>u < length (sys_threads s). in_call (t_pc (sys_threads s ! u))
           \<and> step_thread s u \<noteq> None"
proof (rule ccontr)
  assume "\<not> ?thesis"
  then have stuck: "\<forall>u < length (sys_threads s).
      in_call (t_pc (sys_threads s ! u)) \<longrightarrow> step_thread s u = None"
    by blast
  define B where "B = {u. u < length (sys_threads s) \<and> in_call (t_pc (sys_threads s ! u))}"
  define K where "K = (\<lambda>u. key ids (t_pc (sys_threads s ! u))) ` B"
  have "finite B" and "t \<in> B"
    using assms(2,3) by (simp_all add: B_def)
  then have "finite K" and "K \<noteq> {}"
    by (auto simp add: K_def)
  then have "Max K \<in> K"
    by (rule Max_in)
  then obtain u where u: "u \<in> B" and top: "key ids (t_pc (sys_threads s ! u)) = Max K"
    by (auto simp add: K_def)
  from u obtain v where "v \<in> B"
    and less: "key ids (t_pc (sys_threads s ! u)) < key ids (t_pc (sys_threads s ! v))"
    using blocked_chain [OF assms(1) _ _ stuck, of u] by (auto simp add: B_def)
  then have "key ids (t_pc (sys_threads s ! v)) \<le> Max K"
    using \<open>finite K\<close> by (simp add: K_def)
  with less top show False by simp
qed

lemma progress:
  assumes "inv ids s" and "\<not> all_returned s"
  shows "can_move s"
proof -
  from assms(2) obtain t where t: "t < length (sys_threads s)"
    and nr: "\<not> is_returned (t_pc (sys_threads s ! t))"
    by (auto simp add: all_returned_def list_all_length)
  have "\<exists>u < length (sys_threads s). step_thread s u \<noteq> None"
  proof (cases "in_call (t_pc (sys_threads s ! t))")
    case True
    with assms(1) t show ?thesis
      using progress_in_call by blast
  next
    case False
    with nr have "t_pc (sys_threads s ! t) = Entry"
      by (cases "t_pc (sys_threads s ! t)") simp_all
    then have "step_thread s t \<noteq> None"
      by (simp add: step_thread_def Let_def split: option.splits prod.splits)
    with t show ?thesis by blast
  qed
  then show ?thesis
    by (auto simp add: can_move_def list_ex_iff)
qed

lemma step_thread_pc:
  assumes "step_thread s t = Some s'"
  shows "\<exists>p'. sys_threads s' = (sys_threads s)[t := (sys_threads s ! t)\<lparr>t_pc := p'\<rparr>]
           \<and> steps_left p' < steps_left (t_pc (sys_threads s ! t))"
  using assms
  by (cases "t_pc (sys_threads s ! t)")
    (auto simp add: step_thread_def Let_def set_pc_def set_lock_def
      split: if_splits option.splits prod.splits)

lemma step_remaining:
  assumes "t < length (sys_threads s)" and "step_thread s t = Some s'"
  shows "remaining s' < remaining s"
proof -
  from assms(2) obtain p' where
    ths: "sys_threads s' = (sys_threads s)[t := (sys_threads s ! t)\<lparr>t_pc := p'\<rparr>]"
    and less: "steps_left p' < steps_left (t_pc (sys_threads s ! t))"
    using step_thread_pc by blast
  let ?f = "\<lambda>th. steps_left (t_pc th)"
  have "remaining s' = sum_list ((map ?f (sys_threads s))[t := steps_left p'])"
    by (simp add: remaining_def ths map_update)
  also have "\<dots> = sum_list (map ?f (sys_threads s)) + steps_left p' - map ?f (sys_threads s) ! t"
    using assms(1) by (simp add: sum_list_update)
  also have "\<dots> < sum_list (map ?f (sys_threads s))"
  proof -
    have "map ?f (sys_threads s) ! t \<le> sum_list (map ?f (sys_threads s))"
      by (rule elem_le_sum_list) (simp add: assms(1))
    with less assms(1) show ?thesis by simp
  qed
  finally show ?thesis
    by (simp add: remaining_def)
qed

lemma run_schedule_inv:
  assumes "inv ids s" and "run_schedule s sched = Some s'"
  shows "inv ids s' \<and> remaining s' + length sched \<le> remaining s"
  using assms
proof (induction sched arbitrary: s)
  case Nil
  then show ?case by simp
next
  case (Cons t ts)
  from Cons.prems(2) obtain s1 where t: "t < length (sys_threads s)"
    and s1: "step_thread s t = Some s1" and rest: "run_schedule s1 ts = Some s'"
    by (auto split: if_splits option.splits)
  from Cons.prems(1) t s1 have "inv ids s1"
    by (rule step_inv)
  then have "inv ids s' \<and> remaining s' + length ts \<le> remaining s1"
    using rest by (rule Cons.IH)
  moreover from t s1 have "remaining s1 < remaining s"
    by (rule step_remaining)
  ultimately show ?case by simp
qed

lemma remaining_init: "remaining (init_sys h calls) = 6 * length calls"
  by (induction calls) (simp_all add: remaining_def init_sys_def new_thread_def)

lemma completes:
  assumes "inv ids s"
  shows "\<exists>sched s'. run_schedule s sched = Some s' \<and> all_returned s'"
  using assms
proof (induction "remaining s" arbitrary: s rule: less_induct)
  case less
  show ?case
  proof (cases "all_returned s")
    case True
    then have "run_schedule s [] = Some s \<and> all_returned s" by simp
    then show ?thesis by blast
  next
    case False
    with less.prems have "can_move s"
      by (rule progress)
    then obtain t s1 where t: "t < length (sys_threads s)" and s1: "step_thread s t = Some s1"
      by (auto simp add: can_move_def list_ex_iff)
    from less.prems t s1 have "inv ids s1"
      by (rule step_inv)
    moreover from t s1 have "remaining s1 < remaining s"
      by (rule step_remaining)
    ultimately obtain sched s' where "run_schedule s1 sched = Some s'" and "all_returned s'"
      using less.hyps by blast
    with t s1 have "run_schedule s (t # sched) = Some s' \<and> all_returned s'"
      by simp
    then show ?thesis by blast
  qed
qed

text \<open>
  The steps of a thread agree with the method run by one thread: a thread that runs
  alone, from free locks, returns what \<open>transfer_to\<close> returns, leaves the heap
  \<open>transfer_to\<close> leaves, and gives every lock back.
\<close>

lemma transfer_alone:
  assumes "transfer_ok (length h) (a, b, x)"
  shows "\<exists>sched s'. run_schedule (init_sys h [(a, b, x)]) sched = Some s'
           \<and> sys_heap s' = snd (transfer_to h a b x)
           \<and> map t_pc (sys_threads s') = [Returned (fst (transfer_to h a b x))]
           \<and> sys_locks s' = replicate (length h) RLock_new"
proof (cases "\<exists>target. b = Some target \<and> target \<noteq> a \<and> 0 < x")
  case False
  then have "run_schedule (init_sys h [(a, b, x)]) [0]
      = Some (set_pc (init_sys h [(a, b, x)]) 0 (Returned (fst (transfer_to h a b x))))
      \<and> snd (transfer_to h a b x) = h"
    by (cases b)
      (auto simp add: init_sys_def new_thread_def step_thread_def transfer_to_def set_pc_def)
  then show ?thesis
    by (intro exI [of _ "[0]"]
        exI [of _ "set_pc (init_sys h [(a, b, x)]) 0 (Returned (fst (transfer_to h a b x)))"])
      (simp add: init_sys_def new_thread_def set_pc_def)
next
  case True
  then obtain target where b: "b = Some target" and ne: "target \<noteq> a" and pos: "0 < x"
    by blast
  with assms have al: "a < length h" and tl: "target < length h"
    by (simp_all add: transfer_ok_def)
  obtain f sn where lo: "lock_order h a target = (f, sn)"
    by (cases "lock_order h a target")
  then have fs: "f < length h \<and> sn < length h \<and> f \<noteq> sn"
    using al tl ne by (auto simp add: lock_order_def split: if_splits)
  obtain r h' where body: "transfer_body h a target x = (r, h')"
    by (cases "transfer_body h a target x")
  have "run_schedule (init_sys h [(a, b, x)]) [0, 0, 0, 0, 0, 0]
      = Some \<lparr>sys_heap = h', sys_locks = replicate (length h) RLock_new,
          sys_threads = [\<lparr>t_self = a, t_other = b, t_amount = x, t_pc = Returned r\<rparr>]\<rparr>"
    using b ne pos lo fs body
    by (simp add: init_sys_def new_thread_def step_thread_def set_pc_def set_lock_def
        acquirable_def acquire_def release_def RLock_new_def list_eq_iff_nth_eq nth_list_update)
  moreover have "transfer_to h a b x = (r, h')"
    using b ne pos body by (simp add: transfer_to_def)
  ultimately show ?thesis
    by (intro exI [of _ "[0, 0, 0, 0, 0, 0]"]
        exI [of _ "\<lparr>sys_heap = h', sys_locks = replicate (length h) RLock_new,
          sys_threads = [\<lparr>t_self = a, t_other = b, t_amount = x, t_pc = Returned r\<rparr>]\<rparr>"])
      simp
qed

lemma step_thread_frame:
  assumes "step_thread s t = Some s'"
  shows "map t_self (sys_threads s') = map t_self (sys_threads s)
       \<and> map t_other (sys_threads s') = map t_other (sys_threads s)"
proof -
  from assms obtain p' where
    "sys_threads s' = (sys_threads s)[t := (sys_threads s ! t)\<lparr>t_pc := p'\<rparr>]"
    using step_thread_pc by blast
  then show ?thesis
    by (cases "t < length (sys_threads s)")
      (simp_all add: map_update list_update_same_conv list_update_beyond not_less)
qed

lemma run_schedule_frame:
  assumes "run_schedule s sched = Some s'"
  shows "map t_self (sys_threads s') = map t_self (sys_threads s)
       \<and> map t_other (sys_threads s') = map t_other (sys_threads s)"
  using assms
proof (induction sched arbitrary: s)
  case Nil
  then show ?case by simp
next
  case (Cons t ts)
  from Cons.prems obtain s1 where s1: "step_thread s t = Some s1"
    and rest: "run_schedule s1 ts = Some s'"
    by (auto split: if_splits option.splits)
  from rest have "map t_self (sys_threads s') = map t_self (sys_threads s1)
      \<and> map t_other (sys_threads s') = map t_other (sys_threads s1)"
    by (rule Cons.IH)
  with step_thread_frame [OF s1] show ?case by simp
qed

lemma owner_holds:
  assumes "inv ids s" and "a < length ids" and "t < length (sys_threads s)"
  shows "rl_owner (sys_locks s ! a) = Some t \<longleftrightarrow> holds (t_pc (sys_threads s ! t)) a"
proof -
  from assms(1,2) have "lock_ok (sys_threads s) a (sys_locks s ! a)"
    by (simp add: inv_def)
  with assms(3) show ?thesis
    by (cases "rl_owner (sys_locks s ! a)") (auto simp add: lock_ok_def)
qed

lemma smaller_first:
  assumes "inv ids s" and "t < length (sys_threads s)"
    and "pc_locks (t_pc (sys_threads s ! t)) = Some (f, sn)"
  shows "ids ! f < ids ! sn
       \<and> (t_self (sys_threads s ! t) = f \<and> t_other (sys_threads s ! t) = Some sn
          \<or> t_self (sys_threads s ! t) = sn \<and> t_other (sys_threads s ! t) = Some f)
       \<and> (rl_owner (sys_locks s ! sn) = Some t \<longrightarrow> rl_owner (sys_locks s ! f) = Some t)"
proof -
  from assms(1,2) have "pc_ok ids (sys_threads s ! t)"
    by (simp add: inv_def)
  with assms(3) have pair: "sorted_pair ids (sys_threads s ! t) f sn"
    by (simp add: pc_ok_pair)
  then have f: "f < length ids" and sn: "sn < length ids"
    by (simp_all add: sorted_pair_def)
  have "holds (t_pc (sys_threads s ! t)) sn \<longrightarrow> holds (t_pc (sys_threads s ! t)) f"
    using assms(3) by (cases "t_pc (sys_threads s ! t)") auto
  then have "rl_owner (sys_locks s ! sn) = Some t \<longrightarrow> rl_owner (sys_locks s ! f) = Some t"
    using owner_holds [OF assms(1) f assms(2)] owner_holds [OF assms(1) sn assms(2)] by simp
  with pair show ?thesis
    by (auto simp add: sorted_pair_def split: option.splits)
qed

lemma lock_order_direction:
  assumes "distinct (map account_number h)" and "a < length h" and "b < length h" and "a \<noteq> b"
  shows "lock_order h a b = lock_order h b a
       \<and> account_number (h ! fst (lock_order h a b))
           < account_number (h ! snd (lock_order h a b))"
proof -
  from assms have "account_number (h ! a) \<noteq> account_number (h ! b)"
    using nth_eq_iff_index_eq [of "map account_number h" a b] by simp
  then show ?thesis
    by (auto simp add: lock_order_def)
qed

lemma owned_locks:
  assumes "inv ids s" and "t < length (sys_threads s)"
  shows "(\<forall>a < length ids.
            rl_owner (sys_locks s ! a) = Some t \<longleftrightarrow> holds (t_pc (sys_threads s ! t)) a)
       \<and> (\<forall>f sn. t_pc (sys_threads s ! t) = Acquire1 f sn \<longrightarrow>
            rl_owner (sys_locks s ! f) \<noteq> Some t \<and> rl_owner (sys_locks s ! sn) \<noteq> Some t)
       \<and> (\<forall>f sn. t_pc (sys_threads s ! t) = Acquire2 f sn \<longrightarrow>
            rl_owner (sys_locks s ! f) = Some t \<and> rl_owner (sys_locks s ! sn) \<noteq> Some t)
       \<and> (\<forall>f sn. t_pc (sys_threads s ! t) = Critical f sn \<longrightarrow>
            rl_owner (sys_locks s ! f) = Some t \<and> rl_owner (sys_locks s ! sn) = Some t)
       \<and> (\<forall>f sn r. t_pc (sys_threads s ! t) = Exit2 f sn r \<longrightarrow>
            rl_owner (sys_locks s ! f) = Some t \<and> rl_owner (sys_locks s ! sn) = Some t)
       \<and> (\<forall>f r. t_pc (sys_threads s ! t) = Exit1 f r \<longrightarrow>
            rl_owner (sys_locks s ! f) = Some t)"
proof -
  let ?p = "t_pc (sys_threads s ! t)"
  have own: "rl_owner (sys_locks s ! a) = Some t \<longleftrightarrow> holds ?p a" if "a < length ids" for a
    using owner_holds [OF assms(1) that assms(2)] .
  from assms have ok: "pc_ok ids (sys_threads s ! t)"
    by (simp add: inv_def)
  have pair: "f < length ids \<and> sn < length ids \<and> f \<noteq> sn"
    if "pc_locks ?p = Some (f, sn)" for f sn
    using pc_ok_pair [OF ok that] by (auto simp add: sorted_pair_def)
  have "rl_owner (sys_locks s ! f) \<noteq> Some t \<and> rl_owner (sys_locks s ! sn) \<noteq> Some t"
    if "?p = Acquire1 f sn" for f sn
    using that pair [of f sn] own [of f] own [of sn] by simp
  moreover have "rl_owner (sys_locks s ! f) = Some t \<and> rl_owner (sys_locks s ! sn) \<noteq> Some t"
    if "?p = Acquire2 f sn" for f sn
    using that pair [of f sn] own [of f] own [of sn] by auto
  moreover have "rl_owner (sys_locks s ! f) = Some t \<and> rl_owner (sys_locks s ! sn) = Some t"
    if "?p = Critical f sn" for f sn
    using that pair [of f sn] own [of f] own [of sn] by simp
  moreover have "rl_owner (sys_locks s ! f) = Some t \<and> rl_owner (sys_locks s ! sn) = Some t"
    if "?p = Exit2 f sn r" for f sn r
    using that pair [of f sn] own [of f] own [of sn] by simp
  moreover have "rl_owner (sys_locks s ! f) = Some t" if "?p = Exit1 f r" for f r
    using that ok own [of f] by (simp add: pc_ok_def)
  ultimately show ?thesis
    using own by blast
qed

text \<open>
  C2. Deadlock freedom by lock ordering. Let the account numbers of the heap be pairwise
  distinct, and let any number of threads each make one \<open>transfer_to\<close> call on accounts
  of the heap. Then
  \<^item> the order of the two locks does not depend on the direction of the transfer:
    \<open>lock_order\<close> gives the same pair for \<open>X \<rightarrow> Y\<close> and \<open>Y \<rightarrow> X\<close>, the account with the
    smaller number first;
  \<^item> in every state that any schedule reaches, the locals \<open>first, second\<close> of a thread
    are its two accounts with the smaller number first;
  \<^item> the locks are taken in that order: a thread about to ask for \<open>first\<close> owns neither
    lock, a thread about to ask for \<open>second\<close> owns \<open>first\<close> and not \<open>second\<close>, a thread
    in the body or leaving the inner \<open>with\<close> owns both, a thread leaving the outer
    \<open>with\<close> owns \<open>first\<close>; at every point a thread owns exactly the locks that
    \<open>holds\<close> lists, so before the checks and after the return it owns none;
  \<^item> no reachable state is a deadlock: either every call has returned or some thread
    can move;
  \<^item> every schedule has at most six steps for each call, and from every reachable state
    some schedule brings every call to its return. So every transfer completes.
\<close>

theorem ordered_locks_no_deadlock:
  assumes "distinct (map account_number h)"
    and "\<forall>c \<in> set calls. transfer_ok (length h) c"
    and "run_schedule (init_sys h calls) sched = Some s"
  shows "(\<forall>a b. a < length h \<and> b < length h \<and> a \<noteq> b \<longrightarrow>
            lock_order h a b = lock_order h b a
          \<and> account_number (h ! fst (lock_order h a b))
              < account_number (h ! snd (lock_order h a b)))
       \<and> map t_self (sys_threads s) = map fst calls
       \<and> map t_other (sys_threads s) = map (\<lambda>c. fst (snd c)) calls
       \<and> (\<forall>t f sn. t < length calls \<and> pc_locks (t_pc (sys_threads s ! t)) = Some (f, sn) \<longrightarrow>
            account_number (h ! f) < account_number (h ! sn)
          \<and> (t_self (sys_threads s ! t) = f \<and> t_other (sys_threads s ! t) = Some sn
             \<or> t_self (sys_threads s ! t) = sn \<and> t_other (sys_threads s ! t) = Some f)
          \<and> (rl_owner (sys_locks s ! sn) = Some t \<longrightarrow> rl_owner (sys_locks s ! f) = Some t))
       \<and> (\<forall>t. t < length calls \<longrightarrow>
            (\<forall>a < length h.
               rl_owner (sys_locks s ! a) = Some t \<longleftrightarrow> holds (t_pc (sys_threads s ! t)) a)
          \<and> (\<forall>f sn. t_pc (sys_threads s ! t) = Acquire1 f sn \<longrightarrow>
               rl_owner (sys_locks s ! f) \<noteq> Some t \<and> rl_owner (sys_locks s ! sn) \<noteq> Some t)
          \<and> (\<forall>f sn. t_pc (sys_threads s ! t) = Acquire2 f sn \<longrightarrow>
               rl_owner (sys_locks s ! f) = Some t \<and> rl_owner (sys_locks s ! sn) \<noteq> Some t)
          \<and> (\<forall>f sn. t_pc (sys_threads s ! t) = Critical f sn \<longrightarrow>
               rl_owner (sys_locks s ! f) = Some t \<and> rl_owner (sys_locks s ! sn) = Some t)
          \<and> (\<forall>f sn r. t_pc (sys_threads s ! t) = Exit2 f sn r \<longrightarrow>
               rl_owner (sys_locks s ! f) = Some t \<and> rl_owner (sys_locks s ! sn) = Some t)
          \<and> (\<forall>f r. t_pc (sys_threads s ! t) = Exit1 f r \<longrightarrow>
               rl_owner (sys_locks s ! f) = Some t))
       \<and> (all_returned s \<or> can_move s)
       \<and> length sched \<le> 6 * length calls
       \<and> (\<exists>sched' s'. run_schedule s sched' = Some s' \<and> all_returned s')"
proof -
  let ?ids = "map account_number h"
  have "inv ?ids (init_sys h calls)"
    using assms(1,2) by (rule inv_init)
  then have inv: "inv ?ids s"
    and bound: "remaining s + length sched \<le> remaining (init_sys h calls)"
    using run_schedule_inv [OF _ assms(3)] by simp_all
  have frame: "map t_self (sys_threads s) = map fst calls
      \<and> map t_other (sys_threads s) = map (\<lambda>c. fst (snd c)) calls"
    using run_schedule_frame [OF assms(3)] by (simp add: init_sys_def new_thread_def comp_def)
  then have len: "length (sys_threads s) = length calls"
    using length_map by metis
  have locks: "account_number (h ! f) < account_number (h ! sn)
      \<and> (t_self (sys_threads s ! t) = f \<and> t_other (sys_threads s ! t) = Some sn
         \<or> t_self (sys_threads s ! t) = sn \<and> t_other (sys_threads s ! t) = Some f)
      \<and> (rl_owner (sys_locks s ! sn) = Some t \<longrightarrow> rl_owner (sys_locks s ! f) = Some t)"
    if "t < length calls" and "pc_locks (t_pc (sys_threads s ! t)) = Some (f, sn)" for t f sn
  proof -
    from inv that(1) len have "pc_ok ?ids (sys_threads s ! t)"
      by (simp add: inv_def)
    with that(2) have "f < length h" and "sn < length h"
      using pc_ok_pair [of ?ids "sys_threads s ! t" f sn] by (simp_all add: sorted_pair_def)
    then show ?thesis
      using smaller_first [OF inv _ that(2)] that(1) len by simp
  qed
  have owned: "\<forall>t. t < length calls \<longrightarrow>
      (\<forall>a < length h.
         rl_owner (sys_locks s ! a) = Some t \<longleftrightarrow> holds (t_pc (sys_threads s ! t)) a)
    \<and> (\<forall>f sn. t_pc (sys_threads s ! t) = Acquire1 f sn \<longrightarrow>
         rl_owner (sys_locks s ! f) \<noteq> Some t \<and> rl_owner (sys_locks s ! sn) \<noteq> Some t)
    \<and> (\<forall>f sn. t_pc (sys_threads s ! t) = Acquire2 f sn \<longrightarrow>
         rl_owner (sys_locks s ! f) = Some t \<and> rl_owner (sys_locks s ! sn) \<noteq> Some t)
    \<and> (\<forall>f sn. t_pc (sys_threads s ! t) = Critical f sn \<longrightarrow>
         rl_owner (sys_locks s ! f) = Some t \<and> rl_owner (sys_locks s ! sn) = Some t)
    \<and> (\<forall>f sn r. t_pc (sys_threads s ! t) = Exit2 f sn r \<longrightarrow>
         rl_owner (sys_locks s ! f) = Some t \<and> rl_owner (sys_locks s ! sn) = Some t)
    \<and> (\<forall>f r. t_pc (sys_threads s ! t) = Exit1 f r \<longrightarrow>
         rl_owner (sys_locks s ! f) = Some t)"
  proof (intro allI impI)
    fix t
    assume "t < length calls"
    then have "t < length (sys_threads s)"
      using len by simp
    from owned_locks [OF inv this]
    show "(\<forall>a < length h.
         rl_owner (sys_locks s ! a) = Some t \<longleftrightarrow> holds (t_pc (sys_threads s ! t)) a)
      \<and> (\<forall>f sn. t_pc (sys_threads s ! t) = Acquire1 f sn \<longrightarrow>
           rl_owner (sys_locks s ! f) \<noteq> Some t \<and> rl_owner (sys_locks s ! sn) \<noteq> Some t)
      \<and> (\<forall>f sn. t_pc (sys_threads s ! t) = Acquire2 f sn \<longrightarrow>
           rl_owner (sys_locks s ! f) = Some t \<and> rl_owner (sys_locks s ! sn) \<noteq> Some t)
      \<and> (\<forall>f sn. t_pc (sys_threads s ! t) = Critical f sn \<longrightarrow>
           rl_owner (sys_locks s ! f) = Some t \<and> rl_owner (sys_locks s ! sn) = Some t)
      \<and> (\<forall>f sn r. t_pc (sys_threads s ! t) = Exit2 f sn r \<longrightarrow>
           rl_owner (sys_locks s ! f) = Some t \<and> rl_owner (sys_locks s ! sn) = Some t)
      \<and> (\<forall>f r. t_pc (sys_threads s ! t) = Exit1 f r \<longrightarrow>
           rl_owner (sys_locks s ! f) = Some t)"
      by simp
  qed
  have order: "\<forall>a b. a < length h \<and> b < length h \<and> a \<noteq> b \<longrightarrow>
      lock_order h a b = lock_order h b a
      \<and> account_number (h ! fst (lock_order h a b))
          < account_number (h ! snd (lock_order h a b))"
    using lock_order_direction [OF assms(1)] by blast
  have move: "all_returned s \<or> can_move s"
    using progress [OF inv] by blast
  have short: "length sched \<le> 6 * length calls"
    using bound by (simp add: remaining_init)
  have ends: "\<exists>sched' s'. run_schedule s sched' = Some s' \<and> all_returned s'"
    using inv by (rule completes)
  from locks have locks': "\<forall>t f sn. t < length calls
      \<and> pc_locks (t_pc (sys_threads s ! t)) = Some (f, sn) \<longrightarrow>
        account_number (h ! f) < account_number (h ! sn)
      \<and> (t_self (sys_threads s ! t) = f \<and> t_other (sys_threads s ! t) = Some sn
         \<or> t_self (sys_threads s ! t) = sn \<and> t_other (sys_threads s ! t) = Some f)
      \<and> (rl_owner (sys_locks s ! sn) = Some t \<longrightarrow> rl_owner (sys_locks s ! f) = Some t)"
    by blast
  from order frame [THEN conjunct1] frame [THEN conjunct2] locks' owned move short ends
  show ?thesis
    by (intro conjI) assumption+
qed

theorem ordered_locks_no_deadlock_witness:
  "run_schedule
     (init_sys [\<lparr>account_number = ''AAA'', balance_cents = 100000\<rparr>,
                \<lparr>account_number = ''BBB'', balance_cents = 100000\<rparr>]
        [(0, Some 1, 10), (1, Some 0, 10)]) [0, 1, 0, 0]
     = Some \<lparr>sys_heap = [\<lparr>account_number = ''AAA'', balance_cents = 100000\<rparr>,
                          \<lparr>account_number = ''BBB'', balance_cents = 100000\<rparr>],
             sys_locks = [\<lparr>rl_owner = Some 0, rl_count = 1\<rparr>,
                          \<lparr>rl_owner = Some 0, rl_count = 1\<rparr>],
             sys_threads =
               [\<lparr>t_self = 0, t_other = Some 1, t_amount = 10, t_pc = Critical 0 1\<rparr>,
                \<lparr>t_self = 1, t_other = Some 0, t_amount = 10, t_pc = Acquire1 0 1\<rparr>]\<rparr>
   \<and> lock_order [\<lparr>account_number = ''AAA'', balance_cents = 100000\<rparr>,
                  \<lparr>account_number = ''BBB'', balance_cents = 100000\<rparr>] 0 1
       = lock_order [\<lparr>account_number = ''AAA'', balance_cents = 100000\<rparr>,
                     \<lparr>account_number = ''BBB'', balance_cents = 100000\<rparr>] 1 0
   \<and> can_move \<lparr>sys_heap = [\<lparr>account_number = ''AAA'', balance_cents = 100000\<rparr>,
                            \<lparr>account_number = ''BBB'', balance_cents = 100000\<rparr>],
               sys_locks = [\<lparr>rl_owner = Some 0, rl_count = 1\<rparr>,
                            \<lparr>rl_owner = Some 0, rl_count = 1\<rparr>],
               sys_threads =
                 [\<lparr>t_self = 0, t_other = Some 1, t_amount = 10, t_pc = Critical 0 1\<rparr>,
                  \<lparr>t_self = 1, t_other = Some 0, t_amount = 10, t_pc = Acquire1 0 1\<rparr>]\<rparr>"
proof -
  let ?h = "[\<lparr>account_number = ''AAA'', balance_cents = 100000\<rparr>,
             \<lparr>account_number = ''BBB'', balance_cents = 100000\<rparr>]"
  let ?calls = "[(0, Some 1, 10), (1, Some 0, 10)] :: (nat \<times> nat option \<times> int) list"
  let ?s = "\<lparr>sys_heap = ?h,
             sys_locks = [\<lparr>rl_owner = Some 0, rl_count = 1\<rparr>,
                          \<lparr>rl_owner = Some 0, rl_count = 1\<rparr>],
             sys_threads =
               [\<lparr>t_self = 0, t_other = Some 1, t_amount = 10, t_pc = Critical 0 1\<rparr>,
                \<lparr>t_self = 1, t_other = Some 0, t_amount = 10, t_pc = Acquire1 0 1\<rparr>]\<rparr>"
  have numbers: "distinct (map account_number ?h)"
    by simp
  have calls: "\<forall>c \<in> set ?calls. transfer_ok (length ?h) c"
    by (simp add: transfer_ok_def)
  have run: "run_schedule (init_sys ?h ?calls) [0, 1, 0, 0] = Some ?s"
    by (simp add: init_sys_def new_thread_def step_thread_def lock_order_def set_pc_def
        set_lock_def RLock_new_def acquirable_def acquire_def)
  have "\<not> all_returned ?s"
    by (simp add: all_returned_def)
  with ordered_locks_no_deadlock [OF numbers calls run] run show ?thesis
    by simp
qed

text \<open>
  The hypothesis on the account numbers is needed. The constructor accepts two accounts
  with the same number; the comparison \<open>self.account_number < other.account_number\<close> is
  then false in both directions, so each transfer takes the lock of its target first, and
  two opposite transfers, each after its first lock, wait for each other for ever.
\<close>

theorem equal_numbers_deadlock:
  "lock_order [\<lparr>account_number = ''ACC-001'', balance_cents = 100\<rparr>,
               \<lparr>account_number = ''ACC-001'', balance_cents = 100\<rparr>] 0 1 = (1, 0)
   \<and> lock_order [\<lparr>account_number = ''ACC-001'', balance_cents = 100\<rparr>,
                  \<lparr>account_number = ''ACC-001'', balance_cents = 100\<rparr>] 1 0 = (0, 1)
   \<and> run_schedule
       (init_sys [\<lparr>account_number = ''ACC-001'', balance_cents = 100\<rparr>,
                  \<lparr>account_number = ''ACC-001'', balance_cents = 100\<rparr>]
          [(0, Some 1, 10), (1, Some 0, 10)]) [0, 1, 0, 1]
     = Some \<lparr>sys_heap = [\<lparr>account_number = ''ACC-001'', balance_cents = 100\<rparr>,
                          \<lparr>account_number = ''ACC-001'', balance_cents = 100\<rparr>],
             sys_locks = [\<lparr>rl_owner = Some 1, rl_count = 1\<rparr>,
                          \<lparr>rl_owner = Some 0, rl_count = 1\<rparr>],
             sys_threads =
               [\<lparr>t_self = 0, t_other = Some 1, t_amount = 10, t_pc = Acquire2 1 0\<rparr>,
                \<lparr>t_self = 1, t_other = Some 0, t_amount = 10, t_pc = Acquire2 0 1\<rparr>]\<rparr>
   \<and> \<not> all_returned
         \<lparr>sys_heap = [\<lparr>account_number = ''ACC-001'', balance_cents = 100\<rparr>,
                      \<lparr>account_number = ''ACC-001'', balance_cents = 100\<rparr>],
          sys_locks = [\<lparr>rl_owner = Some 1, rl_count = 1\<rparr>,
                       \<lparr>rl_owner = Some 0, rl_count = 1\<rparr>],
          sys_threads =
            [\<lparr>t_self = 0, t_other = Some 1, t_amount = 10, t_pc = Acquire2 1 0\<rparr>,
             \<lparr>t_self = 1, t_other = Some 0, t_amount = 10, t_pc = Acquire2 0 1\<rparr>]\<rparr>
   \<and> \<not> can_move
         \<lparr>sys_heap = [\<lparr>account_number = ''ACC-001'', balance_cents = 100\<rparr>,
                      \<lparr>account_number = ''ACC-001'', balance_cents = 100\<rparr>],
          sys_locks = [\<lparr>rl_owner = Some 1, rl_count = 1\<rparr>,
                       \<lparr>rl_owner = Some 0, rl_count = 1\<rparr>],
          sys_threads =
            [\<lparr>t_self = 0, t_other = Some 1, t_amount = 10, t_pc = Acquire2 1 0\<rparr>,
             \<lparr>t_self = 1, t_other = Some 0, t_amount = 10, t_pc = Acquire2 0 1\<rparr>]\<rparr>"
  by (simp add: init_sys_def new_thread_def step_thread_def lock_order_def set_pc_def
      set_lock_def RLock_new_def acquirable_def acquire_def all_returned_def can_move_def
      upt_rec)

end
